theory Spec2Isabelle
  imports Main "HOL-Library.AList"
begin

section \<open>JavaScript values\<close>

text \<open>
  The documents handled by \<^verbatim>\<open>deepMerge\<close> (\<^verbatim>\<open>src/utils.ts\<close>) are plain JavaScript
  values: primitives, arrays and objects created by an object literal or by
  \<^verbatim>\<open>JSON.parse\<close>, whose prototype is \<^verbatim>\<open>Object.prototype\<close>. An object is the association
  list of its own properties; a number is an integer (the code only tests numbers for
  truthiness, so \<^verbatim>\<open>NaN\<close> and fractions play no role).

  Not in this type: function values, objects of a class (a \<^verbatim>\<open>pulumi.Output\<close> among
  them, which \<^verbatim>\<open>deepMerge\<close> would treat as a record of its internal fields) and
  properties inherited from a prototype. Where the composition functions place an
  \<^verbatim>\<open>Output\<close> in a document they build, the document of the model holds the string the
  \<^verbatim>\<open>Output\<close> resolves to; the overrides a caller supplies are plain documents.

  The reads and writes of the model are those of own data properties. They are the
  program's as long as no key the merge writes or looks up is the name of a member of
  a built-in prototype (\<open>prototypeFree\<close> below); at such a key the program reads the
  inherited member, and a write to \<^verbatim>\<open>__proto__\<close> changes the prototype of the result.
  A new property is enumerated after the existing ones; that JavaScript enumerates the
  keys that are array indices before all others is not modelled for documents.
\<close>

datatype jsval =
    Undefined
  | Null
  | Bool bool
  | Num int
  | Str string
  | Arr "jsval list"
  | Obj "(string \<times> jsval) list"

datatype jstype = TUndefined | TObject | TBoolean | TNumber | TString

text \<open>\<^verbatim>\<open>!v\<close> is the negation of \<open>truthy v\<close>.\<close>

fun truthy :: "jsval \<Rightarrow> bool" where
  "truthy Undefined = False"
| "truthy Null = False"
| "truthy (Bool b) = b"
| "truthy (Num n) = (n \<noteq> 0)"
| "truthy (Str s) = (s \<noteq> [])"
| "truthy (Arr xs) = True"
| "truthy (Obj kvs) = True"

fun typeof :: "jsval \<Rightarrow> jstype" where
  "typeof Undefined = TUndefined"
| "typeof Null = TObject"
| "typeof (Bool b) = TBoolean"
| "typeof (Num n) = TNumber"
| "typeof (Str s) = TString"
| "typeof (Arr xs) = TObject"
| "typeof (Obj kvs) = TObject"

fun isArray :: "jsval \<Rightarrow> bool" where
  "isArray (Arr xs) = True"
| "isArray v = False"

text \<open>Array and string indices are property keys in decimal notation.\<close>

fun digit :: "nat \<Rightarrow> char" where
  "digit n = char_of (48 + n)"

fun show_nat :: "nat \<Rightarrow> string" where
  "show_nat n = (if n < 10 then [digit n] else show_nat (n div 10) @ [digit (n mod 10)])"

text \<open>
  The enumerable properties of a value, in enumeration order: what the spread
  \<^verbatim>\<open>{ ...target }\<close> copies and what \<^verbatim>\<open>for (const key in source)\<close> visits (with
  \<^verbatim>\<open>source[key]\<close> beside each key).
\<close>

fun entries :: "jsval \<Rightarrow> (string \<times> jsval) list" where
  "entries (Obj kvs) = kvs"
| "entries (Arr xs) = zip (map show_nat [0..<length xs]) xs"
| "entries (Str s) = zip (map show_nat [0..<length s]) (map (\<lambda>c. Str [c]) s)"
| "entries v = []"

fun keys :: "jsval \<Rightarrow> string list" where
  "keys v = map fst (entries v)"

text \<open>The property read \<^verbatim>\<open>v[key]\<close>; a missing property reads as \<^verbatim>\<open>undefined\<close>.\<close>

fun get :: "jsval \<Rightarrow> string \<Rightarrow> jsval" where
  "get (Obj kvs) key = (case map_of kvs key of Some v \<Rightarrow> v | None \<Rightarrow> Undefined)"
| "get (Arr xs) key =
     (if key = ''length'' then Num (int (length xs))
      else case map_of (entries (Arr xs)) key of Some v \<Rightarrow> v | None \<Rightarrow> Undefined)"
| "get (Str s) key =
     (if key = ''length'' then Num (int (length s))
      else case map_of (entries (Str s)) key of Some v \<Rightarrow> v | None \<Rightarrow> Undefined)"
| "get v key = Undefined"

text \<open>\<^verbatim>\<open>a || b\<close>\<close>

fun or_else :: "jsval \<Rightarrow> jsval \<Rightarrow> jsval" where
  "or_else a b = (if truthy a then a else b)"

section \<open>The deep merge\<close>

text \<open>The recursion of \<^verbatim>\<open>deepMerge\<close> descends into the records of the override.\<close>

fun weight :: "jsval \<Rightarrow> nat" where
  "weight (Obj kvs) = Suc (sum_list (map (\<lambda>(k, v). weight v) kvs))"
| "weight (Arr xs) = Suc (sum_list (map weight xs))"
| "weight v = 0"

fun bound :: "(string \<times> jsval) list \<Rightarrow> nat" where
  "bound [] = 0"
| "bound ((k, v) # es) =
     max (if truthy v \<and> typeof v = TObject \<and> \<not> isArray v then Suc (weight v) else 0)
         (bound es)"

lemma bound_le_sum: "bound es \<le> Suc (sum_list (map (\<lambda>(k, v). weight v) es))"
  by (induction es) (auto split: if_splits)

lemma bound_zip_le: "bound (zip ks xs) \<le> Suc (sum_list (map weight xs))"
proof (induction xs arbitrary: ks)
  case Nil
  then show ?case by simp
next
  case (Cons x xs)
  show ?case
  proof (cases ks)
    case Nil
    then show ?thesis by simp
  next
    case (Cons k ks')
    have "bound (zip ks' xs) \<le> Suc (sum_list (map weight xs))" by (rule Cons.IH)
    then show ?thesis using Cons by auto
  qed
qed

lemma bound_zip_Str: "bound (zip ks (map (\<lambda>c. Str [c]) s)) = 0"
proof (induction s arbitrary: ks)
  case Nil
  then show ?case by simp
next
  case (Cons c s)
  then show ?case by (cases ks) auto
qed

lemma bound_entries: "bound (entries s) \<le> weight s"
  by (cases s) (simp_all add: bound_le_sum bound_zip_le bound_zip_Str)

text \<open>
  \<^verbatim>\<open>deepMerge(target, source)\<close>. \<open>mergeLoop\<close> is the \<^verbatim>\<open>for ... in\<close> loop over the
  properties of \<^verbatim>\<open>source\<close> that are still to be visited, with \<^verbatim>\<open>result\<close> as its
  state; \<^verbatim>\<open>result[key] = x\<close> is \<open>AList.update key x result\<close>, which overwrites the
  property where it is or appends it.
\<close>

function deepMerge :: "jsval \<Rightarrow> jsval \<Rightarrow> jsval"
  and mergeLoop ::
    "jsval \<Rightarrow> (string \<times> jsval) list \<Rightarrow> (string \<times> jsval) list \<Rightarrow> (string \<times> jsval) list"
where
  "deepMerge target source =
     (if \<not> truthy source then target
      else if \<not> truthy target then source
      else Obj (mergeLoop target (entries source) (entries target)))"
| "mergeLoop target [] result = result"
| "mergeLoop target ((key, v) # rest) result =
     mergeLoop target rest
       (AList.update key
          (if truthy v \<and> typeof v = TObject \<and> \<not> isArray v
           then deepMerge (or_else (get target key) (Obj [])) v
           else v)
          result)"
  by pat_completeness auto
termination
proof (relation "inv_image (less_than <*lex*> less_than)
    (\<lambda>x. case x of Inl (t, s) \<Rightarrow> (2 * weight s + 1, 0)
                 | Inr (t, es, r) \<Rightarrow> (2 * bound es, length es))", goal_cases)
  case 1
  then show ?case by auto
next
  case (2 target source)
  have "bound (entries source) \<le> weight source" by (rule bound_entries)
  then show ?case by simp
next
  case (3 target key v rest result)
  then show ?case by (simp add: max_def)
next
  case (4 target key v rest result)
  then show ?case by (auto simp: max_def)
qed

declare deepMerge.simps [simp del]

text \<open>A structured record: the test under which the loop recurses.\<close>

definition isRecord :: "jsval \<Rightarrow> bool" where
  "isRecord v = (truthy v \<and> typeof v = TObject \<and> \<not> isArray v)"

text \<open>The value one iteration of the loop stores under \<open>key\<close>.\<close>

fun mergedValue :: "jsval \<Rightarrow> string \<Rightarrow> jsval \<Rightarrow> jsval" where
  "mergedValue target key v =
     (if truthy v \<and> typeof v = TObject \<and> \<not> isArray v
      then deepMerge (or_else (get target key) (Obj [])) v
      else v)"

text \<open>A JavaScript object has each property once.\<close>

fun wellFormed :: "jsval \<Rightarrow> bool" where
  "wellFormed (Obj kvs) = (distinct (map fst kvs) \<and> (\<forall>(k, v) \<in> set kvs. wellFormed v))"
| "wellFormed (Arr xs) = (\<forall>v \<in> set xs. wellFormed v)"
| "wellFormed v = True"






section \<open>Configuration types\<close>

text \<open>
  The types of \<^verbatim>\<open>types.ts\<close> and \<^verbatim>\<open>deployment.ts\<close>. An optional field is an \<open>option\<close>,
  \<open>None\<close> being the absent field; field names carry the prefix of their record. A
  provider handle is opaque and stands for itself. A callback of the platform context,
  a service constructor and an environment function are functions that return a value
  or throw (\<open>Inl\<close>); what a callback does of its own is outside this program. A
  services mapping is the list of its properties as the application declares them, in
  the order of the declaration, each name once.
\<close>

datatype Error = Error string

record Cluster =
  cl_platform :: string
  cl_provider :: string

record Domain =
  dom_zone :: string
  dom_subdomain :: string

record ApplicationIngress =
  ing_domains :: "Domain list"
  ing_healthCheck :: "string option"
  ing_annotations :: "(string \<times> string) list option"

record DeploymentScaler =
  sc_minReplicas :: int
  sc_maxReplicas :: int
  sc_targetCPUUtilization :: int

text \<open>
  An entry of \<^verbatim>\<open>app.deployments\<close> is spread into the arguments of \<^verbatim>\<open>defineDeployment\<close>
  over the defaults \<^verbatim>\<open>name\<close> and \<^verbatim>\<open>secrets\<close>, so for these two it matters whether the
  entry has the property at all: \<open>Absent\<close>, or \<open>Present\<close> with its value, which may be
  \<^verbatim>\<open>undefined\<close> (for \<^verbatim>\<open>secrets\<close>, also \<^verbatim>\<open>null\<close>), written \<open>Present None\<close>. The type
  \<^verbatim>\<open>DeploymentConfig\<close> of \<^verbatim>\<open>types.ts\<close> declares no \<^verbatim>\<open>secrets\<close>; the spread copies one
  all the same.
\<close>

datatype 'a field = Absent | Present 'a

record DeploymentConfig =
  dc_name :: "string option field"
  dc_image :: string
  dc_tag :: "string option"
  dc_containerPort :: "int option"
  dc_containerOverride :: "jsval option"
  dc_deploymentOverride :: "jsval option"
  dc_ingress :: "ApplicationIngress option"
  dc_scaler :: "DeploymentScaler option"
  dc_secrets :: "string option field"

record DeploymentArgs =
  a_name :: string
  a_image :: string
  a_tag :: "string option"
  a_containerPort :: "int option"
  a_containerOverride :: "jsval option"
  a_deploymentOverride :: "jsval option"
  a_ingress :: "ApplicationIngress option"
  a_scaler :: "DeploymentScaler option"
  a_secrets :: "string option"

record ExposedServiceArgs =
  ex_args :: DeploymentArgs
  ex_namespace :: string
  ex_name :: string
  ex_containerPort :: int
  ex_ingress :: ApplicationIngress

record ServiceAccount =
  acct_name :: string
  acct_namespace :: string

datatype StorageTier = Fast | Cheap

record CICDContext =
  cc_getDeployServiceAccount :: "(Cluster \<Rightarrow> Error + ServiceAccount option) option"

record FactoryContext =
  fc_getStorageClass :: "Cluster \<Rightarrow> StorageTier \<Rightarrow> string"
  fc_exposeService :: "(Cluster \<Rightarrow> ExposedServiceArgs \<Rightarrow> Error + jsval) option"
  fc_cicd :: "CICDContext option"

record ServiceArgs =
  sv_applicationName :: string
  sv_namespace :: string
  sv_cluster :: Cluster
  sv_context :: FactoryContext

type_synonym Service = "ServiceArgs \<Rightarrow> Error + jsval"

type_synonym Environment = "(string \<times> string) list option"

datatype EnvironmentSpec =
    Static Environment
  | Function "(string \<times> jsval) list \<Rightarrow> Error + Environment"

record Application =
  app_name :: string
  app_namespace :: "string option"
  app_repository :: "string option"
  app_environment :: EnvironmentSpec
  app_services :: "(string \<times> Service) list option"
  app_deployments :: "DeploymentConfig list option"
  app_cicd :: "bool option"

section \<open>Resources and the trace of a composition\<close>

text \<open>
  The composition functions have two effects: they register resources
  (\<^verbatim>\<open>new k8s....(name, args, opts)\<close>) and they call the callbacks they are given. The
  trace is the sequence of these actions in program order. It is threaded through
  every function as a state; each \<^verbatim>\<open>new\<close> of the source appends a \<open>Created\<close> event and
  each call of a callback appends an \<open>Invoked\<close> event before the callback runs.
\<close>

datatype ResourceKind =
  Namespace | Secret | Deployment | HorizontalPodAutoscaler | Role | RoleBinding

record Resource =
  res_kind :: ResourceKind
  res_name :: string
  res_args :: jsval
  res_provider :: string
  res_ignoreChanges :: "string list"

datatype Callee =
    ServiceConstructor string
  | EnvironmentFunction "(string \<times> jsval) list"
  | ExposeService ExposedServiceArgs
  | GetDeployServiceAccount Cluster

datatype Event = Created Resource | Invoked Callee

type_synonym Trace = "Event list"

definition new :: "ResourceKind \<Rightarrow> string \<Rightarrow> jsval \<Rightarrow> string \<Rightarrow> string list \<Rightarrow> Trace \<Rightarrow> Trace" where
  "new kind name args provider ignoreChanges trace =
     trace @ [Created \<lparr>res_kind = kind, res_name = name, res_args = args,
                        res_provider = provider, res_ignoreChanges = ignoreChanges\<rparr>]"

fun created :: "Trace \<Rightarrow> Resource list" where
  "created [] = []"
| "created (Created r # es) = r # created es"
| "created (Invoked c # es) = created es"

fun invoked :: "Trace \<Rightarrow> Callee list" where
  "invoked [] = []"
| "invoked (Created r # es) = invoked es"
| "invoked (Invoked c # es) = c # invoked es"


section \<open>The scaler\<close>

text \<open>\<^verbatim>\<open>defineScaler\<close> (\<^verbatim>\<open>scaler.ts\<close>).\<close>

definition defineScaler ::
  "string \<Rightarrow> DeploymentScaler \<Rightarrow> string \<Rightarrow> Cluster \<Rightarrow> Trace \<Rightarrow> DeploymentScaler \<times> Trace" where
  "defineScaler target scaler namespace cluster trace =
     (scaler,
      new HorizontalPodAutoscaler target
        (Obj [(''metadata'', Obj [(''name'', Str (''for-'' @ target)),
                                  (''namespace'', Str namespace),
                                  (''labels'', Obj [(''app.kubernetes.io/name'', Str target)])]),
              (''spec'', Obj [(''scaleTargetRef'', Obj [(''apiVersion'', Str ''apps/v1''),
                                                       (''kind'', Str ''Deployment''),
                                                       (''name'', Str target)]),
                              (''minReplicas'', Num (sc_minReplicas scaler)),
                              (''maxReplicas'', Num (sc_maxReplicas scaler)),
                              (''metrics'', Arr [Obj [(''type'', Str ''Resource''),
                                 (''resource'', Obj [(''name'', Str ''cpu''),
                                    (''target'', Obj [(''type'', Str ''Utilization''),
                                       (''averageUtilization'',
                                          Num (sc_targetCPUUtilization scaler))])])]])])])
        (cl_provider cluster) [] trace)"

section \<open>The deployment\<close>

text \<open>Truthiness of an optional number and of an optional string.\<close>

fun truthyNumber :: "int option \<Rightarrow> bool" where
  "truthyNumber None = False"
| "truthyNumber (Some n) = (n \<noteq> 0)"

fun truthyString :: "string option \<Rightarrow> bool" where
  "truthyString None = False"
| "truthyString (Some s) = (s \<noteq> [])"

text \<open>
  \<^verbatim>\<open>ingress?.healthCheck\<close>. Below, \<open>the\<close> reads an optional value only under the test
  that it is truthy, hence set.
\<close>

fun healthCheckOf :: "ApplicationIngress option \<Rightarrow> string option" where
  "healthCheckOf None = None"
| "healthCheckOf (Some i) = ing_healthCheck i"

definition probeOf :: "int option \<Rightarrow> ApplicationIngress option \<Rightarrow> jsval" where
  "probeOf containerPort ingress =
     (if truthyNumber containerPort \<and> truthyString (healthCheckOf ingress)
      then Obj [(''httpGet'', Obj [(''path'', Str (the (healthCheckOf ingress))),
                                   (''port'', Num (the containerPort))])]
      else Undefined)"

definition baseContainer ::
  "string \<Rightarrow> string \<Rightarrow> string \<Rightarrow> int option \<Rightarrow> string option \<Rightarrow> jsval \<Rightarrow> jsval" where
  "baseContainer name image' tag containerPort secrets probe =
     Obj [(''name'', Str name),
          (''image'', Str (image' @ '':'' @ tag)),
          (''ports'', if truthyNumber containerPort
                      then Arr [Obj [(''containerPort'', Num (the containerPort)),
                                     (''name'', Str ''http''),
                                     (''protocol'', Str ''TCP'')]]
                      else Undefined),
          (''envFrom'', if truthyString secrets
                        then Arr [Obj [(''secretRef'', Obj [(''name'', Str (the secrets))])]]
                        else Undefined),
          (''livenessProbe'', probe),
          (''readinessProbe'', probe)]"

definition baseDeployment :: "string \<Rightarrow> string \<Rightarrow> jsval \<Rightarrow> jsval" where
  "baseDeployment name namespace mergedContainer =
     Obj [(''metadata'', Obj [(''name'', Str name),
                              (''namespace'', Str namespace),
                              (''labels'', Obj [(''app.kubernetes.io/name'', Str name)])]),
          (''spec'', Obj [(''replicas'', Num 1),
                          (''selector'', Obj [(''matchLabels'',
                             Obj [(''app.kubernetes.io/name'', Str name)])]),
                          (''template'', Obj [
                             (''metadata'', Obj [(''labels'',
                                Obj [(''app.kubernetes.io/name'', Str name)])]),
                             (''spec'', Obj [(''containers'', Arr [mergedContainer])])])])]"

record DeploymentResult =
  dr_name :: jsval
  dr_containerPort :: "int option"
  dr_ingress :: "jsval option"
  dr_scaler :: "DeploymentScaler option"

text \<open>
  \<^verbatim>\<open>defineDeployment\<close> (\<^verbatim>\<open>deployment.ts\<close>). A \<^verbatim>\<open>throw\<close> returns \<open>Inl\<close> with the trace
  as it is at that point.
\<close>

definition defineDeployment ::
  "DeploymentArgs \<Rightarrow> string \<Rightarrow> Cluster \<Rightarrow> FactoryContext \<Rightarrow> Trace
     \<Rightarrow> (Error + DeploymentResult) \<times> Trace" where
  "defineDeployment args namespace cluster factoryConfig trace =
     (let name = a_name args;
          image' = a_image args;
          tag = (case a_tag args of None \<Rightarrow> ''latest'' | Some t \<Rightarrow> t);
          containerPort = a_containerPort args;
          containerOverride = (case a_containerOverride args of None \<Rightarrow> Obj [] | Some v \<Rightarrow> v);
          deploymentOverride = (case a_deploymentOverride args of None \<Rightarrow> Obj [] | Some v \<Rightarrow> v);
          ingress = a_ingress args;
          scaler = a_scaler args;
          secrets = a_secrets args
      in
      if ingress \<noteq> None \<and> \<not> truthyNumber containerPort
      then (Inl (Error (''Container port must be defined when using ingress for application ''
                        @ name)), trace)
      else
        let probe = probeOf containerPort ingress;
            mergedContainer =
              deepMerge (baseContainer name image' tag containerPort secrets probe) containerOverride;
            finalDeployment =
              deepMerge (baseDeployment name namespace mergedContainer) deploymentOverride;
            trace1 = new Deployment name finalDeployment (cl_provider cluster)
                       [''spec.replicas'', ''spec.template.spec.containers[0].image''] trace;
            exposed =
              (if ingress \<noteq> None \<and> truthyNumber containerPort
               then (case fc_exposeService factoryConfig of
                       None \<Rightarrow>
                         (Inl (Error (''exposeService is required when ingress is configured for deployment ''
                                      @ name)), trace1)
                     | Some exposeService \<Rightarrow>
                         (let exposedArgs = \<lparr>ex_args = args, ex_namespace = namespace,
                                               ex_name = name, ex_containerPort = the containerPort,
                                               ex_ingress = the ingress\<rparr>;
                              trace2 = trace1 @ [Invoked (ExposeService exposedArgs)]
                          in case exposeService cluster exposedArgs of
                               Inl e \<Rightarrow> (Inl e, trace2)
                             | Inr r \<Rightarrow> (Inr (Some r), trace2)))
               else (Inr None, trace1))
        in case exposed of
             (Inl e, trace2) \<Rightarrow> (Inl e, trace2)
           | (Inr exposedService, trace2) \<Rightarrow>
               (let (deploymentScaler, trace3) =
                      (case scaler of
                         None \<Rightarrow> (None, trace2)
                       | Some sc \<Rightarrow>
                           (let (r, t) = defineScaler name sc namespace cluster trace2
                            in (Some r, t)))
                in (Inr \<lparr>dr_name = get (get finalDeployment ''metadata'') ''name'',
                          dr_containerPort = containerPort,
                          dr_ingress = exposedService,
                          dr_scaler = deploymentScaler\<rparr>, trace3)))"

section \<open>CI/CD access\<close>

datatype CICDResult = Skipped | RoleGranted jsval jsval

definition deployerRules :: jsval where
  "deployerRules =
     Arr [Obj [(''apiGroups'', Arr [Str ''apps'']),
               (''resources'', Arr [Str ''deployments'']),
               (''verbs'', Arr [Str ''get'', Str ''list'', Str ''patch'', Str ''update''])],
          Obj [(''apiGroups'', Arr [Str []]),
               (''resources'', Arr [Str ''pods'']),
               (''verbs'', Arr [Str ''get'', Str ''list'', Str ''watch''])],
          Obj [(''apiGroups'', Arr [Str []]),
               (''resources'', Arr [Str ''pods/log'']),
               (''verbs'', Arr [Str ''get'', Str ''list''])],
          Obj [(''apiGroups'', Arr [Str ''batch'']),
               (''resources'', Arr [Str ''jobs'']),
               (''verbs'', Arr [Str ''get'', Str ''list'', Str ''create'', Str ''delete'',
                               Str ''watch''])],
          Obj [(''apiGroups'', Arr [Str ''batch'']),
               (''resources'', Arr [Str ''cronjobs'']),
               (''verbs'', Arr [Str ''get'', Str ''list'', Str ''patch'', Str ''update''])]]"

definition roleArgs :: "string \<Rightarrow> jsval" where
  "roleArgs namespace =
     Obj [(''metadata'', Obj [(''name'', Str ''github-deployer''), (''namespace'', Str namespace)]),
          (''rules'', deployerRules)]"

definition roleBindingArgs :: "string \<Rightarrow> ServiceAccount \<Rightarrow> jsval \<Rightarrow> jsval" where
  "roleBindingArgs namespace deployServiceAccount roleName =
     Obj [(''metadata'', Obj [(''name'', Str ''github-deployer''), (''namespace'', Str namespace)]),
          (''subjects'', Arr [Obj [(''kind'', Str ''ServiceAccount''),
                                   (''name'', Str (acct_name deployServiceAccount)),
                                   (''namespace'', Str (acct_namespace deployServiceAccount))]]),
          (''roleRef'', Obj [(''kind'', Str ''Role''),
                             (''name'', roleName),
                             (''apiGroup'', Str ''rbac.authorization.k8s.io'')])]"

text \<open>\<^verbatim>\<open>factoryConfig.cicd?.getDeployServiceAccount\<close>\<close>

fun getDeployServiceAccountOf ::
  "FactoryContext \<Rightarrow> (Cluster \<Rightarrow> Error + ServiceAccount option) option" where
  "getDeployServiceAccountOf factoryConfig =
     (case fc_cicd factoryConfig of None \<Rightarrow> None | Some c \<Rightarrow> cc_getDeployServiceAccount c)"

text \<open>\<^verbatim>\<open>defineCICD\<close> (\<^verbatim>\<open>cicd.ts\<close>).\<close>

definition defineCICD ::
  "Application \<Rightarrow> string \<Rightarrow> Cluster \<Rightarrow> FactoryContext \<Rightarrow> Trace
     \<Rightarrow> (Error + CICDResult) \<times> Trace" where
  "defineCICD app namespace cluster factoryConfig trace =
     (case getDeployServiceAccountOf factoryConfig of
        None \<Rightarrow> (Inr Skipped, trace)
      | Some getDeployServiceAccount \<Rightarrow>
          (let trace1 = trace @ [Invoked (GetDeployServiceAccount cluster)]
           in case getDeployServiceAccount cluster of
                Inl e \<Rightarrow> (Inl e, trace1)
              | Inr None \<Rightarrow> (Inr Skipped, trace1)
              | Inr (Some deployServiceAccount) \<Rightarrow>
                  (let role = roleArgs namespace;
                       trace2 = new Role (app_name app @ ''-github-role'') role
                                  (cl_provider cluster) [] trace1;
                       roleName = get (get role ''metadata'') ''name'';
                       roleBinding = roleBindingArgs namespace deployServiceAccount roleName;
                       trace3 = new RoleBinding (app_name app @ ''-github-binding'') roleBinding
                                  (cl_provider cluster) [] trace2
                   in (Inr (RoleGranted roleName (get roleBinding ''subjects'')), trace3))))"

section \<open>The application\<close>

text \<open>\<^verbatim>\<open>app?.namespace || app.name\<close>\<close>

definition namespaceOf :: "Application \<Rightarrow> string" where
  "namespaceOf app =
     (case app_namespace app of
        None \<Rightarrow> app_name app
      | Some ns \<Rightarrow> if ns \<noteq> [] then ns else app_name app)"

text \<open>\<^verbatim>\<open>app.services || {}\<close> and \<^verbatim>\<open>app.deployments || []\<close>\<close>

fun servicesOf :: "Application \<Rightarrow> (string \<times> Service) list" where
  "servicesOf app = (case app_services app of None \<Rightarrow> [] | Some svcs \<Rightarrow> svcs)"

fun deploymentsOf :: "Application \<Rightarrow> DeploymentConfig list" where
  "deploymentsOf app = (case app_deployments app of None \<Rightarrow> [] | Some ds \<Rightarrow> ds)"

definition serviceArgs :: "Application \<Rightarrow> string \<Rightarrow> Cluster \<Rightarrow> FactoryContext \<Rightarrow> ServiceArgs" where
  "serviceArgs app namespace cluster factoryConfig =
     \<lparr>sv_applicationName = app_name app, sv_namespace = namespace,
      sv_cluster = cluster, sv_context = factoryConfig\<rparr>"

text \<open>
  \<^verbatim>\<open>Object.entries\<close> lists the properties of an object in the order of its own property
  keys: first the keys that are array indices (the decimal notation, without leading
  zeros, of a number below \<open>2\<^sup>3\<^sup>2 - 1\<close>) in ascending numeric order, then the other
  keys in the order in which they were created.
\<close>

definition digitValue :: "char \<Rightarrow> nat" where
  "digitValue c = of_char c - 48"

definition readNat :: "string \<Rightarrow> nat" where
  "readNat k = foldl (\<lambda>n c. 10 * n + digitValue c) 0 k"

definition isArrayIndex :: "string \<Rightarrow> bool" where
  "isArrayIndex k =
     (k \<noteq> [] \<and> (\<forall>c \<in> set k. c \<in> set ''0123456789'')
      \<and> (hd k = CHR ''0'' \<longrightarrow> k = ''0'') \<and> readNat k < 4294967295)"

definition objectEntries :: "(string \<times> 'a) list \<Rightarrow> (string \<times> 'a) list" where
  "objectEntries es =
     sort_key (\<lambda>(k, v). readNat k) (filter (\<lambda>(k, v). isArrayIndex k) es)
     @ filter (\<lambda>(k, v). \<not> isArrayIndex k) es"

text \<open>
  \<^verbatim>\<open>Object.entries(...).map(([name, service]) => [name, service({...})])\<close>: the
  constructors are called one after another, and the first that throws ends the
  composition.
\<close>

fun mapServices ::
  "ServiceArgs \<Rightarrow> (string \<times> Service) list \<Rightarrow> Trace \<Rightarrow> (Error + (string \<times> jsval) list) \<times> Trace" where
  "mapServices sargs [] trace = (Inr [], trace)"
| "mapServices sargs ((name, service) # rest) trace =
     (let trace1 = trace @ [Invoked (ServiceConstructor name)]
      in case service sargs of
           Inl e \<Rightarrow> (Inl e, trace1)
         | Inr r \<Rightarrow>
             (case mapServices sargs rest trace1 of
                (Inl e, trace2) \<Rightarrow> (Inl e, trace2)
              | (Inr rs, trace2) \<Rightarrow> (Inr ((name, r) # rs), trace2)))"

text \<open>\<^verbatim>\<open>Object.fromEntries\<close>: a later entry overwrites an earlier one of the same key.\<close>

definition fromEntries :: "(string \<times> 'a) list \<Rightarrow> (string \<times> 'a) list" where
  "fromEntries es = foldl (\<lambda>acc (k, v). AList.update k v acc) [] es"

definition defineServices ::
  "Application \<Rightarrow> string \<Rightarrow> Cluster \<Rightarrow> FactoryContext \<Rightarrow> Trace
     \<Rightarrow> (Error + (string \<times> jsval) list \<times> Environment) \<times> Trace" where
  "defineServices app namespace cluster factoryConfig trace =
     (case mapServices (serviceArgs app namespace cluster factoryConfig)
             (objectEntries (servicesOf app)) trace of
        (Inl e, trace1) \<Rightarrow> (Inl e, trace1)
      | (Inr es, trace1) \<Rightarrow>
          (let services = fromEntries es
           in case app_environment app of
                Function f \<Rightarrow>
                  (let trace2 = trace1 @ [Invoked (EnvironmentFunction services)]
                   in case f services of
                        Inl e \<Rightarrow> (Inl e, trace2)
                      | Inr environment \<Rightarrow> (Inr (services, environment), trace2))
              | Static environment \<Rightarrow> (Inr (services, environment), trace1)))"

definition secretArgs :: "Application \<Rightarrow> string \<Rightarrow> (string \<times> string) list \<Rightarrow> jsval" where
  "secretArgs app namespace environment =
     Obj [(''stringData'', Obj (map (\<lambda>(k, v). (k, Str v)) environment)),
          (''metadata'', Obj [(''name'', Str (''for-'' @ app_name app)),
                              (''namespace'', Str namespace)])]"

text \<open>
  \<^verbatim>\<open>defineSecrets\<close>. The result is the \<^verbatim>\<open>metadata.name\<close> of the secret, or \<^verbatim>\<open>null\<close>.
  An environment is an object, so \<^verbatim>\<open>!environment\<close> holds of the absent one only.
\<close>

definition defineSecrets ::
  "Application \<Rightarrow> string \<Rightarrow> Cluster \<Rightarrow> Environment \<Rightarrow> Trace \<Rightarrow> string option \<times> Trace" where
  "defineSecrets app namespace cluster environment trace =
     (case environment of
        None \<Rightarrow> (None, trace)
      | Some env \<Rightarrow>
          (Some (''for-'' @ app_name app),
           new Secret (app_name app) (secretArgs app namespace env) (cl_provider cluster) [] trace))"

text \<open>
  \<^verbatim>\<open>{ name: app.name, secrets, ...deploymentConfig }\<close>: the properties of the entry
  overwrite the two defaults. A name that is present with the value \<^verbatim>\<open>undefined\<close>
  reaches \<^verbatim>\<open>defineDeployment\<close> as \<^verbatim>\<open>undefined\<close>, against the type of its argument; the
  model gives it the text that a template renders for it, and the statements about
  deployments leave such an entry out.
\<close>

definition deploymentArgs :: "Application \<Rightarrow> string option \<Rightarrow> DeploymentConfig \<Rightarrow> DeploymentArgs" where
  "deploymentArgs app secrets deploymentConfig =
     \<lparr>a_name = (case dc_name deploymentConfig of
                   Absent \<Rightarrow> app_name app
                 | Present None \<Rightarrow> ''undefined''
                 | Present (Some n) \<Rightarrow> n),
      a_image = dc_image deploymentConfig,
      a_tag = dc_tag deploymentConfig,
      a_containerPort = dc_containerPort deploymentConfig,
      a_containerOverride = dc_containerOverride deploymentConfig,
      a_deploymentOverride = dc_deploymentOverride deploymentConfig,
      a_ingress = dc_ingress deploymentConfig,
      a_scaler = dc_scaler deploymentConfig,
      a_secrets = (case dc_secrets deploymentConfig of
                     Absent \<Rightarrow> secrets
                   | Present own \<Rightarrow> own)\<rparr>"

text \<open>
  \<^verbatim>\<open>(app.deployments || []).map((deploymentConfig) => defineDeployment({...}, ...))\<close>,
  given the arguments of the calls: the deployments are composed one after another,
  and the first that throws ends the composition.
\<close>

fun defineDeployments ::
  "DeploymentArgs list \<Rightarrow> string \<Rightarrow> Cluster \<Rightarrow> FactoryContext \<Rightarrow> Trace
     \<Rightarrow> (Error + DeploymentResult list) \<times> Trace" where
  "defineDeployments [] namespace cluster factoryConfig trace = (Inr [], trace)"
| "defineDeployments (args # rest) namespace cluster factoryConfig trace =
     (case defineDeployment args namespace cluster factoryConfig trace of
        (Inl e, trace1) \<Rightarrow> (Inl e, trace1)
      | (Inr d, trace1) \<Rightarrow>
          (case defineDeployments rest namespace cluster factoryConfig trace1 of
             (Inl e, trace2) \<Rightarrow> (Inl e, trace2)
           | (Inr ds, trace2) \<Rightarrow> (Inr (d # ds), trace2)))"

record ApplicationResult =
  ar_namespace :: string
  ar_secrets :: "string option"
  ar_services :: "(string \<times> jsval) list"
  ar_deployments :: "DeploymentResult list"
  ar_cicd :: "CICDResult option"

text \<open>The default export of \<^verbatim>\<open>app.ts\<close>, which \<^verbatim>\<open>index.ts\<close> imports as \<^verbatim>\<open>defineApplication\<close>.\<close>

definition defineApplication ::
  "Application \<Rightarrow> Cluster \<Rightarrow> FactoryContext \<Rightarrow> Trace \<Rightarrow> (Error + ApplicationResult) \<times> Trace" where
  "defineApplication app cluster factoryConfig trace =
     (let provider = cl_provider cluster;
          namespace = namespaceOf app;
          trace0 = new Namespace namespace (Obj [(''metadata'', Obj [(''name'', Str namespace)])])
                     provider [] trace
      in case defineServices app namespace cluster factoryConfig trace0 of
           (Inl e, trace1) \<Rightarrow> (Inl e, trace1)
         | (Inr (services, environment), trace1) \<Rightarrow>
             (let (secrets, trace2) = defineSecrets app namespace cluster environment trace1
              in case defineDeployments (map (deploymentArgs app secrets) (deploymentsOf app))
                        namespace cluster factoryConfig trace2 of
                   (Inl e, trace3) \<Rightarrow> (Inl e, trace3)
                 | (Inr deployments, trace3) \<Rightarrow>
                     (case (if app_cicd app \<noteq> Some False
                            then (case defineCICD app namespace cluster factoryConfig trace3 of
                                    (Inl e, trace4) \<Rightarrow> (Inl e, trace4)
                                  | (Inr r, trace4) \<Rightarrow> (Inr (Some r), trace4))
                            else (Inr None, trace3)) of
                        (Inl e, trace4) \<Rightarrow> (Inl e, trace4)
                      | (Inr cicd, trace4) \<Rightarrow>
                          (Inr \<lparr>ar_namespace = namespace, ar_secrets = secrets,
                                 ar_services = services, ar_deployments = deployments,
                                 ar_cicd = cicd\<rparr>, trace4))))"

section \<open>Observations on a trace\<close>

text \<open>
  The secret bundles created in a trace, and its calls to service constructors and to
  the environment function.
\<close>

fun serviceCall :: "Callee \<Rightarrow> bool" where
  "serviceCall (ServiceConstructor n) = True"
| "serviceCall (EnvironmentFunction services) = True"
| "serviceCall c = False"

definition secretsCreated :: "Trace \<Rightarrow> Resource list" where
  "secretsCreated trace = filter (\<lambda>r. res_kind r = Secret) (created trace)"

definition serviceCalls :: "Trace \<Rightarrow> Callee list" where
  "serviceCalls trace = filter serviceCall (invoked trace)"

text \<open>An event that neither creates a secret nor calls a service constructor or the
  environment function.\<close>

fun otherEvent :: "Event \<Rightarrow> bool" where
  "otherEvent (Created r) = (res_kind r \<noteq> Secret)"
| "otherEvent (Invoked c) = (\<not> serviceCall c)"

text \<open>\<open>returns sargs (n, svc) (n', r)\<close>: the constructor declared under \<open>n\<close> returns \<open>r\<close>.\<close>

fun returns :: "ServiceArgs \<Rightarrow> string \<times> Service \<Rightarrow> string \<times> jsval \<Rightarrow> bool" where
  "returns sargs (n, svc) (n', r) = (n' = n \<and> svc sargs = Inr r)"

section \<open>Objects in a store\<close>

text \<open>
  In the program an object is a mutable cell, and \<^verbatim>\<open>deepMerge\<close> receives references. To
  speak of what a call does to its arguments, the merge is modelled a second time over
  an explicit store: a list of objects, the address of an object being its index. A
  value is a primitive or a reference. A store the program builds can be cyclic, and
  the recursion then does not end: the function takes the depth of recursion it may
  use, and \<open>None\<close> is a call that does not return (or a store with a reference to
  nothing).
\<close>

datatype hval = HUndefined | HNull | HBool bool | HNum int | HStr string | HRef nat

datatype hobj = HObject "(string \<times> hval) list" | HArray "hval list"

type_synonym heap = "hobj list"

fun htruthy :: "hval \<Rightarrow> bool" where
  "htruthy HUndefined = False"
| "htruthy HNull = False"
| "htruthy (HBool b) = b"
| "htruthy (HNum n) = (n \<noteq> 0)"
| "htruthy (HStr s) = (s \<noteq> [])"
| "htruthy (HRef a) = True"

definition deref :: "heap \<Rightarrow> nat \<Rightarrow> hobj option" where
  "deref h a = (if a < length h then Some (h ! a) else None)"

fun hentries :: "heap \<Rightarrow> hval \<Rightarrow> (string \<times> hval) list option" where
  "hentries h (HRef a) =
     (case deref h a of
        None \<Rightarrow> None
      | Some (HObject kvs) \<Rightarrow> Some kvs
      | Some (HArray xs) \<Rightarrow> Some (zip (map show_nat [0..<length xs]) xs))"
| "hentries h (HStr s) = Some (zip (map show_nat [0..<length s]) (map (\<lambda>c. HStr [c]) s))"
| "hentries h v = Some []"

fun hget :: "heap \<Rightarrow> hval \<Rightarrow> string \<Rightarrow> hval option" where
  "hget h (HRef a) key =
     (case deref h a of
        None \<Rightarrow> None
      | Some (HObject kvs) \<Rightarrow> Some (case map_of kvs key of Some v \<Rightarrow> v | None \<Rightarrow> HUndefined)
      | Some (HArray xs) \<Rightarrow>
          Some (if key = ''length'' then HNum (int (length xs))
                else case map_of (zip (map show_nat [0..<length xs]) xs) key of
                       Some v \<Rightarrow> v | None \<Rightarrow> HUndefined))"
| "hget h (HStr s) key =
     Some (if key = ''length'' then HNum (int (length s))
           else case map_of (zip (map show_nat [0..<length s]) (map (\<lambda>c. HStr [c]) s)) key of
                  Some v \<Rightarrow> v | None \<Rightarrow> HUndefined)"
| "hget h v key = Some HUndefined"

text \<open>\<^verbatim>\<open>v && typeof v === 'object' && !Array.isArray(v)\<close>\<close>

fun hisRecord :: "heap \<Rightarrow> hval \<Rightarrow> bool option" where
  "hisRecord h (HRef a) =
     (case deref h a of
        None \<Rightarrow> None
      | Some (HObject kvs) \<Rightarrow> Some True
      | Some (HArray xs) \<Rightarrow> Some False)"
| "hisRecord h v = Some False"

text \<open>\<^verbatim>\<open>result[key] = v\<close>, where \<^verbatim>\<open>result\<close> is the object at address \<open>r\<close>.\<close>

definition hset :: "heap \<Rightarrow> nat \<Rightarrow> string \<Rightarrow> hval \<Rightarrow> heap option" where
  "hset h r key v =
     (case deref h r of
        Some (HObject kvs) \<Rightarrow> Some (h[r := HObject (AList.update key v kvs)])
      | _ \<Rightarrow> None)"

text \<open>Allocation of a new object: \<^verbatim>\<open>{ ...target }\<close> and \<^verbatim>\<open>{}\<close>.\<close>

definition halloc :: "heap \<Rightarrow> hobj \<Rightarrow> nat \<times> heap" where
  "halloc h ob = (length h, h @ [ob])"

text \<open>
  \<^verbatim>\<open>deepMerge(target, source)\<close> over the store. The spread allocates the result; the
  loop visits the keys of \<^verbatim>\<open>source\<close>, reads \<^verbatim>\<open>source[key]\<close> and \<^verbatim>\<open>target[key]\<close> from
  the store as it is at that iteration, and writes to the result.
\<close>

fun deepMergeH :: "nat \<Rightarrow> heap \<Rightarrow> hval \<Rightarrow> hval \<Rightarrow> (hval \<times> heap) option"
  and mergeLoopH :: "nat \<Rightarrow> heap \<Rightarrow> nat \<Rightarrow> hval \<Rightarrow> hval \<Rightarrow> string list \<Rightarrow> heap option"
where
  "deepMergeH 0 h target source = None"
| "deepMergeH (Suc fuel) h target source =
     (if \<not> htruthy source then Some (target, h)
      else if \<not> htruthy target then Some (source, h)
      else
        (case hentries h target of
           None \<Rightarrow> None
         | Some copied \<Rightarrow>
             (let (result, h1) = halloc h (HObject copied)
              in case hentries h1 source of
                   None \<Rightarrow> None
                 | Some es \<Rightarrow>
                     (case mergeLoopH fuel h1 result target source (map fst es) of
                        None \<Rightarrow> None
                      | Some h2 \<Rightarrow> Some (HRef result, h2)))))"
| "mergeLoopH fuel h result target source [] = Some h"
| "mergeLoopH fuel h result target source (key # rest) =
     (case hget h source key of
        None \<Rightarrow> None
      | Some v \<Rightarrow>
          (case hisRecord h v of
             None \<Rightarrow> None
           | Some True \<Rightarrow>
               (case hget h target key of
                  None \<Rightarrow> None
                | Some tv \<Rightarrow>
                    (let (base, h1) = (if htruthy tv then (tv, h)
                                       else (let (a, h') = halloc h (HObject []) in (HRef a, h')))
                     in case deepMergeH fuel h1 base v of
                          None \<Rightarrow> None
                        | Some (merged, h2) \<Rightarrow>
                            (case hset h2 result key merged of
                               None \<Rightarrow> None
                             | Some h3 \<Rightarrow> mergeLoopH fuel h3 result target source rest)))
           | Some False \<Rightarrow>
               (case hset h result key v of
                  None \<Rightarrow> None
                | Some h1 \<Rightarrow> mergeLoopH fuel h1 result target source rest)))"

text \<open>
  The structure of a value in a store, unfolded to the depth \<open>d\<close>: \<open>None\<close> when a
  reference leads outside the store or the value is deeper than \<open>d\<close>.
\<close>

fun reify :: "nat \<Rightarrow> heap \<Rightarrow> hval \<Rightarrow> jsval option" where
  "reify d h HUndefined = Some Undefined"
| "reify d h HNull = Some Null"
| "reify d h (HBool b) = Some (Bool b)"
| "reify d h (HNum n) = Some (Num n)"
| "reify d h (HStr s) = Some (Str s)"
| "reify 0 h (HRef a) = None"
| "reify (Suc d) h (HRef a) =
     (case deref h a of
        None \<Rightarrow> None
      | Some (HObject kvs) \<Rightarrow>
          map_option Obj (those (map (\<lambda>(k, v). map_option (Pair k) (reify d h v)) kvs))
      | Some (HArray xs) \<Rightarrow> map_option Arr (those (map (reify d h) xs)))"

text \<open>
  \<open>unchanged h h'\<close>: every object of the store \<open>h\<close> is in \<open>h'\<close> at its address, as it
  was. \<open>unchangedExcept r h h'\<close> allows the object at \<open>r\<close> to differ.
\<close>

definition unchangedExcept :: "nat \<Rightarrow> heap \<Rightarrow> heap \<Rightarrow> bool" where
  "unchangedExcept r h h' =
     (length h \<le> length h' \<and> (\<forall>a < length h. a \<noteq> r \<longrightarrow> h' ! a = h ! a))"

definition unchanged :: "heap \<Rightarrow> heap \<Rightarrow> bool" where
  "unchanged h h' = (length h \<le> length h' \<and> (\<forall>a < length h. h' ! a = h ! a))"

text \<open>
  \<open>agreeOutside A h h'\<close>: the store \<open>h'\<close> has every object of \<open>h\<close> whose address is not in
  \<open>A\<close>, as it was. \<open>readsAs A d h v j\<close>: the value \<open>v\<close> has the structure \<open>j\<close> in \<open>h\<close> and
  in every store that agrees with \<open>h\<close> outside \<open>A\<close>: it does not depend on the objects
  at the addresses in \<open>A\<close>. \<open>related\<close> lifts this to property lists.
\<close>

definition agreeOutside :: "nat set \<Rightarrow> heap \<Rightarrow> heap \<Rightarrow> bool" where
  "agreeOutside A h h' = (length h \<le> length h' \<and> (\<forall>a < length h. a \<notin> A \<longrightarrow> h' ! a = h ! a))"

definition readsAs :: "nat set \<Rightarrow> nat \<Rightarrow> heap \<Rightarrow> hval \<Rightarrow> jsval \<Rightarrow> bool" where
  "readsAs A d h v j = (\<forall>h'. agreeOutside A h h' \<longrightarrow> reify d h' v = Some j)"

definition related :: "nat set \<Rightarrow> nat \<Rightarrow> heap \<Rightarrow> (string \<times> hval) list \<Rightarrow> (string \<times> jsval) list \<Rightarrow> bool" where
  "related A d h es jes = list_all2 (\<lambda>(k, w) (k', jw). k' = k \<and> readsAs A d h w jw) es jes"

section \<open>Example inputs\<close>

text \<open>
  The application \<^verbatim>\<open>web\<close> of the end-to-end scenario, its deployment \<^verbatim>\<open>api\<close>, and
  platform contexts with and without the optional callbacks.
\<close>

definition exampleCluster :: Cluster where
  "exampleCluster = \<lparr>cl_platform = ''platoform'', cl_provider = ''cluster-provider''\<rparr>"

definition exampleIngress :: ApplicationIngress where
  "exampleIngress =
     \<lparr>ing_domains = [\<lparr>dom_zone = ''example.com'', dom_subdomain = ''api''\<rparr>],
      ing_healthCheck = None, ing_annotations = None\<rparr>"

definition exampleArgs :: "int option \<Rightarrow> DeploymentArgs" where
  "exampleArgs port =
     \<lparr>a_name = ''api'', a_image = ''org/app'', a_tag = Some ''v1'', a_containerPort = port,
      a_containerOverride = None, a_deploymentOverride = None,
      a_ingress = Some exampleIngress,
      a_scaler = Some \<lparr>sc_minReplicas = 2, sc_maxReplicas = 10, sc_targetCPUUtilization = 70\<rparr>,
      a_secrets = None\<rparr>"

definition exampleContext ::
  "(Cluster \<Rightarrow> Error + ServiceAccount option) option \<Rightarrow> FactoryContext" where
  "exampleContext g =
     \<lparr>fc_getStorageClass = (\<lambda>c t. ''standard''), fc_exposeService = None,
      fc_cicd = Some \<lparr>cc_getDeployServiceAccount = g\<rparr>\<rparr>"

definition bareContext :: FactoryContext where
  "bareContext =
     \<lparr>fc_getStorageClass = (\<lambda>c t. ''standard''), fc_exposeService = None, fc_cicd = None\<rparr>"

definition exampleAccount :: ServiceAccount where
  "exampleAccount = \<lparr>acct_name = ''github-actions'', acct_namespace = ''ci''\<rparr>"

definition exampleServices :: "(string \<times> Service) list" where
  "exampleServices =
     [(''redis'', \<lambda>a. Inr (Obj [(''url'', Str (''redis://'' @ sv_applicationName a @ ''-redis-master''))])),
      (''queue'', \<lambda>a. Inr (Obj [(''url'', Str (''amqp://queue.'' @ sv_namespace a))]))]"

definition exampleResolved :: "(string \<times> jsval) list" where
  "exampleResolved =
     [(''redis'', Obj [(''url'', Str ''redis://web-redis-master'')]),
      (''queue'', Obj [(''url'', Str ''amqp://queue.web'')])]"

definition exampleEnvironment :: "(string \<times> jsval) list \<Rightarrow> Error + Environment" where
  "exampleEnvironment services =
     Inr (Some [(''REDIS_URL'',
                 (case get (get (Obj services) ''redis'') ''url'' of Str u \<Rightarrow> u | _ \<Rightarrow> []))])"

definition exampleConfig :: DeploymentConfig where
  "exampleConfig =
     \<lparr>dc_name = Present (Some ''api''), dc_image = ''org/app'', dc_tag = Some ''v1'',
      dc_containerPort = Some 3000, dc_containerOverride = None, dc_deploymentOverride = None,
      dc_ingress = None, dc_scaler = None, dc_secrets = Absent\<rparr>"

definition exampleApp :: "EnvironmentSpec \<Rightarrow> Application" where
  "exampleApp environment =
     \<lparr>app_name = ''web'', app_namespace = None, app_repository = None,
      app_environment = environment, app_services = Some exampleServices,
      app_deployments = Some [exampleConfig], app_cicd = Some True\<rparr>"

text \<open>
  An application whose services are declared in the order \<^verbatim>\<open>b\<close>, \<^verbatim>\<open>2\<close>, \<^verbatim>\<open>a\<close>, with no
  environment, no deployments and no CI/CD.
\<close>

definition orderServices :: "(string \<times> Service) list" where
  "orderServices =
     [(''b'', \<lambda>a. Inr (Str ''second'')),
      (''2'', \<lambda>a. Inr (Str ''first'')),
      (''a'', \<lambda>a. Inr (Str ''third''))]"

definition orderApp :: Application where
  "orderApp =
     \<lparr>app_name = ''web'', app_namespace = None, app_repository = None,
      app_environment = Static None, app_services = Some orderServices,
      app_deployments = None, app_cicd = Some False\<rparr>"

text \<open>
  A store with a base (address 0) and an override (address 3), and the store after
  merging them.
\<close>

definition exampleHeap :: heap where
  "exampleHeap =
     [HObject [(''a'', HRef 1), (''l'', HRef 2)],
      HObject [(''x'', HNum 1), (''y'', HNum 2)],
      HArray [HNum 1, HNum 2, HNum 3],
      HObject [(''a'', HRef 4), (''l'', HRef 5), (''n'', HRef 6)],
      HObject [(''y'', HNum 9)],
      HArray [HNum 9],
      HObject [(''z'', HNull)]]"

definition exampleMerged :: heap where
  "exampleMerged =
     exampleHeap @
     [HObject [(''a'', HRef 8), (''l'', HRef 5), (''n'', HRef 10)],
      HObject [(''x'', HNum 1), (''y'', HNum 9)],
      HObject [],
      HObject [(''z'', HNull)]]"

section \<open>Properties of the merge loop\<close>

lemma isRecord_iff: "isRecord v \<longleftrightarrow> (\<exists>kvs. v = Obj kvs)"
  by (cases v) (simp_all add: isRecord_def)

lemma mergeLoop_step:
  "mergeLoop target ((key, v) # rest) result =
     mergeLoop target rest (AList.update key (mergedValue target key v) result)"
  by simp

lemma map_of_mergeLoop:
  "map_of (mergeLoop target es result) k =
     (case map_of (rev es) k of
        None \<Rightarrow> map_of result k
      | Some v \<Rightarrow> Some (mergedValue target k v))"
proof (induction es arbitrary: result)
  case Nil
  then show ?case by simp
next
  case (Cons e es)
  obtain key v where e: "e = (key, v)" by (cases e)
  show ?case
    unfolding e mergeLoop_step Cons.IH
    by (simp add: update_conv' map_add_def split: option.splits)
qed


lemma distinct_mergeLoop:
  "distinct (map fst result) \<Longrightarrow> distinct (map fst (mergeLoop target es result))"
proof (induction es arbitrary: result)
  case Nil
  then show ?case by simp
next
  case (Cons e es)
  obtain key v where e: "e = (key, v)" by (cases e)
  show ?case
    unfolding e mergeLoop_step
    by (rule Cons.IH) (simp add: distinct_update Cons.prems)
qed

lemma map_of_rev_distinct:
  "distinct (map fst xs) \<Longrightarrow> map_of (rev xs) = map_of xs"
proof (induction xs)
  case Nil
  then show ?case by simp
next
  case (Cons x xs)
  obtain k v where x: "x = (k, v)" by (cases x)
  from Cons.prems have notin: "map_of xs k = None" and d: "distinct (map fst xs)"
    by (auto simp: x map_of_eq_None_iff)
  show ?case
  proof
    fix k'
    show "map_of (rev (x # xs)) k' = map_of (x # xs) k'"
      using notin Cons.IH [OF d] by (auto simp: x map_add_def split: option.splits)
  qed
qed

lemma deepMerge_Obj:
  "truthy target \<Longrightarrow>
   deepMerge target (Obj s) = Obj (mergeLoop target s (entries target))"
  by (simp add: deepMerge.simps)

lemma deepMerge_falsy_target:
  "\<not> truthy target \<Longrightarrow> deepMerge target (Obj s) = Obj s"
  by (simp add: deepMerge.simps)

lemma get_deepMerge_truthy:
  assumes "distinct (map fst s)" and "truthy target"
  shows "get (deepMerge target (Obj s)) k =
     (case map_of s k of
        None \<Rightarrow> get (Obj (entries target)) k
      | Some v \<Rightarrow> mergedValue target k v)"
  using assms
  by (simp add: deepMerge_Obj map_of_mergeLoop map_of_rev_distinct
      split: option.splits del: mergedValue.simps)

section \<open>Right bias\<close>


lemma mergedValue_record:
  "isRecord v \<Longrightarrow> mergedValue t k v = deepMerge (or_else (get t k) (Obj [])) v"
  by (simp add: isRecord_def)

lemma mergedValue_other: "\<not> isRecord v \<Longrightarrow> mergedValue t k v = v"
  by (auto simp: isRecord_def)


lemma update_fresh: "k \<notin> fst ` set r \<Longrightarrow> AList.update k v r = r @ [(k, v)]"
  by (induction r) auto




lemma deepMerge_bias_example:
  "deepMerge (Obj [(''a'', Obj [(''x'', Num 1), (''y'', Num 2)])]) (Obj [(''a'', Obj [(''y'', Num 9)])])
     = Obj [(''a'', Obj [(''x'', Num 1), (''y'', Num 9)])]"
  by (simp add: deepMerge.simps)



section \<open>Null and absent overrides\<close>

text \<open>
  Claim C2, as stated, fails: an explicit \<^verbatim>\<open>null\<close> at a key of the override is stored
  over the base's value. \<^verbatim>\<open>deepMerge({a: 1}, {a: null})\<close> is \<^verbatim>\<open>{a: null}\<close>.
\<close>

theorem deepMerge_null_key_counterexample:
  "get (deepMerge (Obj [(''a'', Num 1)]) (Obj [(''a'', Null)])) ''a''
     \<noteq> get (Obj [(''a'', Num 1)]) ''a''"
  by (simp add: deepMerge.simps)

text \<open>
  Claim C2, amended. For an override without an own key \<^verbatim>\<open>__proto__\<close>: an explicit
  \<^verbatim>\<open>null\<close> at a key of the override replaces the base's value at that key by
  \<^verbatim>\<open>null\<close>, and the base's value is left untouched at every key the override does not
  have. The whole base is returned when the override itself is \<^verbatim>\<open>null\<close> or
  \<^verbatim>\<open>undefined\<close>.
\<close>

theorem deepMerge_null_override:
  assumes "distinct (map fst s)" and "''__proto__'' \<notin> set (map fst s)"
  shows "(map_of s k = Some Null \<longrightarrow> get (deepMerge (Obj b) (Obj s)) k = Null)
    \<and> (map_of s k = None \<longrightarrow> get (deepMerge (Obj b) (Obj s)) k = get (Obj b) k)
    \<and> deepMerge (Obj b) Null = Obj b
    \<and> deepMerge (Obj b) Undefined = Obj b"
proof (intro conjI impI)
  assume "map_of s k = Some Null"
  then show "get (deepMerge (Obj b) (Obj s)) k = Null"
    using assms(1) by (simp add: get_deepMerge_truthy del: get.simps)
next
  assume "map_of s k = None"
  then show "get (deepMerge (Obj b) (Obj s)) k = get (Obj b) k"
    using assms(1) by (simp add: get_deepMerge_truthy del: mergedValue.simps)
qed (simp_all add: deepMerge.simps)

theorem deepMerge_null_override_witness:
  "distinct (map fst [(''a'', Null)])
   \<and> ''__proto__'' \<notin> set (map fst [(''a'', Null)])
   \<and> map_of [(''a'', Null)] ''a'' = Some Null
   \<and> get (deepMerge (Obj [(''a'', Num 1), (''b'', Num 2)]) (Obj [(''a'', Null)])) ''a'' = Null
   \<and> map_of [(''a'', Null)] ''b'' = None
   \<and> get (deepMerge (Obj [(''a'', Num 1), (''b'', Num 2)]) (Obj [(''a'', Null)])) ''b'' = Num 2"
proof -
  have d: "distinct (map fst [(''a'', Null :: jsval)])" by simp
  have p: "''__proto__'' \<notin> set (map fst [(''a'', Null :: jsval)])" by simp
  show ?thesis
    using d p
      deepMerge_null_override [OF d p, of "''a''" "[(''a'', Num 1), (''b'', Num 2)]"]
      deepMerge_null_override [OF d p, of "''b''" "[(''a'', Num 1), (''b'', Num 2)]"]
    by simp
qed

section \<open>The empty document\<close>



section \<open>Sequences replace sequences\<close>

lemma deepMerge_list_example:
  "deepMerge (Obj [(''list'', Arr [Num 1, Num 2, Num 3])]) (Obj [(''list'', Arr [Num 9])])
     = Obj [(''list'', Arr [Num 9])]"
  by (simp add: deepMerge.simps)

text \<open>
  Claim C6. Whatever the base holds, a key whose override value is a sequence reads
  in the merged document as exactly that sequence: the base's value at the key is
  replaced wholesale, and no element of it survives.
\<close>

theorem deepMerge_sequence_replaces:
  assumes "distinct (map fst s)" and "map_of s k = Some (Arr xs)"
  shows "get (deepMerge target (Obj s)) k = Arr xs"
proof (cases "truthy target")
  case True
  then show ?thesis
    using assms by (simp add: get_deepMerge_truthy del: get.simps)
next
  case False
  then show ?thesis
    using assms by (simp add: deepMerge_falsy_target)
qed

theorem deepMerge_sequence_replaces_witness:
  "distinct (map fst [(''list'', Arr [Num 9])])
   \<and> map_of [(''list'', Arr [Num 9])] ''list'' = Some (Arr [Num 9])
   \<and> get (deepMerge (Obj [(''list'', Arr [Num 1, Num 2, Num 3])])
            (Obj [(''list'', Arr [Num 9])])) ''list'' = Arr [Num 9]"
  using deepMerge_sequence_replaces
    [of "[(''list'', Arr [Num 9])]" "''list''" "[Num 9]"
        "Obj [(''list'', Arr [Num 1, Num 2, Num 3])]"]
  by simp

section \<open>Properties of traces\<close>

lemma created_append: "created (t @ u) = created t @ created u"
  by (induction t rule: created.induct) simp_all

lemma invoked_append: "invoked (t @ u) = invoked t @ invoked u"
  by (induction t rule: invoked.induct) simp_all

lemma created_new:
  "created (new kind name args provider ic trace) =
     created trace @ [\<lparr>res_kind = kind, res_name = name, res_args = args,
                        res_provider = provider, res_ignoreChanges = ic\<rparr>]"
  by (simp add: new_def created_append)

lemma invoked_new: "invoked (new kind name args provider ic trace) = invoked trace"
  by (simp add: new_def invoked_append)

section \<open>Steps of the deployment and of CI/CD\<close>

lemma defineDeployment_port_check:
  assumes "a_ingress args \<noteq> None" and "\<not> truthyNumber (a_containerPort args)"
  shows "defineDeployment args namespace cluster factoryConfig trace =
     (Inl (Error (''Container port must be defined when using ingress for application ''
                  @ a_name args)), trace)"
  using assms by (simp add: defineDeployment_def)

lemma defineDeployment_no_exposeService:
  assumes "a_ingress args \<noteq> None" and "truthyNumber (a_containerPort args)"
    and "fc_exposeService factoryConfig = None"
  shows "\<exists>spec. defineDeployment args namespace cluster factoryConfig trace =
     (Inl (Error (''exposeService is required when ingress is configured for deployment ''
                  @ a_name args)),
      trace @ [Created \<lparr>res_kind = Deployment, res_name = a_name args, res_args = spec,
                         res_provider = cl_provider cluster,
                         res_ignoreChanges = [''spec.replicas'',
                           ''spec.template.spec.containers[0].image'']\<rparr>])"
  using assms by (simp add: defineDeployment_def Let_def new_def)

lemma defineCICD_unconfigured:
  "getDeployServiceAccountOf factoryConfig = None \<Longrightarrow>
   defineCICD app namespace cluster factoryConfig trace = (Inr Skipped, trace)"
  by (simp add: defineCICD_def)

lemma defineCICD_declined:
  "getDeployServiceAccountOf factoryConfig = Some g \<Longrightarrow> g cluster = Inr None \<Longrightarrow>
   defineCICD app namespace cluster factoryConfig trace =
     (Inr Skipped, trace @ [Invoked (GetDeployServiceAccount cluster)])"
  by (simp add: defineCICD_def)

lemma defineCICD_granted:
  "getDeployServiceAccountOf factoryConfig = Some g \<Longrightarrow> g cluster = Inr (Some sa) \<Longrightarrow>
   defineCICD app namespace cluster factoryConfig trace =
     (Inr (RoleGranted (Str ''github-deployer'')
             (Arr [Obj [(''kind'', Str ''ServiceAccount''),
                        (''name'', Str (acct_name sa)),
                        (''namespace'', Str (acct_namespace sa))]])),
      trace @ [Invoked (GetDeployServiceAccount cluster),
               Created \<lparr>res_kind = Role, res_name = app_name app @ ''-github-role'',
                         res_args = roleArgs namespace,
                         res_provider = cl_provider cluster, res_ignoreChanges = []\<rparr>,
               Created \<lparr>res_kind = RoleBinding, res_name = app_name app @ ''-github-binding'',
                         res_args = roleBindingArgs namespace sa (Str ''github-deployer''),
                         res_provider = cl_provider cluster, res_ignoreChanges = []\<rparr>])"
  by (simp add: defineCICD_def Let_def new_def roleArgs_def roleBindingArgs_def)

lemma secretsCreated_append:
  "secretsCreated (t @ u) = secretsCreated t @ secretsCreated u"
  by (simp add: secretsCreated_def created_append)

lemma serviceCalls_append:
  "serviceCalls (t @ u) = serviceCalls t @ serviceCalls u"
  by (simp add: serviceCalls_def invoked_append)

lemma otherEvents_secretsCreated: "list_all otherEvent evs \<Longrightarrow> secretsCreated evs = []"
  by (induction evs rule: created.induct) (simp_all add: secretsCreated_def)

lemma otherEvents_serviceCalls: "list_all otherEvent evs \<Longrightarrow> serviceCalls evs = []"
  by (induction evs rule: invoked.induct) (simp_all add: serviceCalls_def)

lemma defineDeployment_trace:
  "\<exists>evs. snd (defineDeployment args namespace cluster factoryConfig trace) = trace @ evs
         \<and> list_all otherEvent evs"
  by (auto simp: defineDeployment_def Let_def new_def defineScaler_def
      split: option.splits sum.splits)

lemma defineDeployments_trace:
  "\<exists>evs. snd (defineDeployments argss namespace cluster factoryConfig trace) = trace @ evs
         \<and> list_all otherEvent evs"
proof (induction argss arbitrary: trace)
  case Nil
  then show ?case by simp
next
  case (Cons args argss)
  obtain evs1 where 1:
    "snd (defineDeployment args namespace cluster factoryConfig trace) = trace @ evs1"
    "list_all otherEvent evs1"
    using defineDeployment_trace by blast
  show ?case
  proof (cases "defineDeployment args namespace cluster factoryConfig trace")
    case (Pair r t1)
    have t1: "t1 = trace @ evs1" using 1(1) Pair by simp
    show ?thesis
    proof (cases r)
      case (Inl e)
      then show ?thesis using Pair t1 1(2) by simp
    next
      case (Inr res)
      obtain evs2 where 2:
        "snd (defineDeployments argss namespace cluster factoryConfig t1) = t1 @ evs2"
        "list_all otherEvent evs2"
        using Cons.IH by blast
      show ?thesis
        using Pair Inr t1 1(2) 2
        by (cases "defineDeployments argss namespace cluster factoryConfig t1")
           (auto split: sum.splits)
    qed
  qed
qed

lemma defineCICD_trace:
  "\<exists>evs. snd (defineCICD app namespace cluster factoryConfig trace) = trace @ evs
         \<and> list_all otherEvent evs"
  by (auto simp: defineCICD_def Let_def new_def split: option.splits sum.splits)

section \<open>Steps of the application\<close>

lemma objectEntries_set: "set (objectEntries es) = set es"
  by (auto simp: objectEntries_def)

lemma objectEntries_distinct:
  assumes "distinct (map fst es)"
  shows "distinct (map fst (objectEntries es))"
proof -
  have d: "distinct es" and inj: "inj_on fst (set es)"
    using assms by (simp_all add: distinct_map)
  have "distinct (objectEntries es)"
    using d by (auto simp: objectEntries_def)
  moreover have "inj_on fst (set (objectEntries es))"
    using inj by (simp add: objectEntries_set)
  ultimately show ?thesis by (simp add: distinct_map)
qed

lemma insort_key_names:
  "map fst (insort_key (\<lambda>(k, v). f k) x xs) = insort_key f (fst x) (map fst xs)"
  by (induction xs) (auto simp: case_prod_beta)

lemma sort_key_names: "map fst (sort_key (\<lambda>(k, v). f k) xs) = sort_key f (map fst xs)"
  by (induction xs) (simp_all add: insort_key_names)

lemma filter_names: "map fst (filter (\<lambda>(k, v). P k) es) = filter P (map fst es)"
  by (induction es) auto

lemma objectEntries_names:
  "map fst (objectEntries es) =
     sort_key readNat (filter isArrayIndex (map fst es))
     @ filter (\<lambda>n. \<not> isArrayIndex n) (map fst es)"
  by (simp add: objectEntries_def sort_key_names filter_names)

lemma objectEntries_plain:
  assumes "\<forall>n \<in> set (map fst es). \<not> isArrayIndex n"
  shows "objectEntries es = es"
proof -
  have "filter (\<lambda>(k, v). isArrayIndex k) es = []"
    using assms by (auto simp: filter_empty_conv)
  moreover have "filter (\<lambda>(k, v). \<not> isArrayIndex k) es = es"
    using assms by (auto simp: filter_id_conv)
  ultimately show ?thesis by (simp add: objectEntries_def)
qed

lemma mapServices_created:
  "created (snd (mapServices sargs svcs trace)) = created trace"
proof (induction svcs arbitrary: trace)
  case Nil
  then show ?case by simp
next
  case (Cons s svcs)
  obtain n svc where s: "s = (n, svc)" by (cases s)
  show ?case
  proof (cases "svc sargs")
    case (Inl e)
    then show ?thesis by (simp add: s created_append)
  next
    case (Inr r)
    have "created (snd (mapServices sargs svcs (trace @ [Invoked (ServiceConstructor n)])))
            = created trace"
      by (simp add: Cons.IH created_append)
    then show ?thesis
      using Inr
      by (cases "mapServices sargs svcs (trace @ [Invoked (ServiceConstructor n)])")
         (auto simp: s split: sum.splits)
  qed
qed

lemma mapServices_success:
  "list_all2 (returns sargs) svcs resolved \<Longrightarrow>
   mapServices sargs svcs trace =
     (Inr resolved, trace @ map (\<lambda>(n, svc). Invoked (ServiceConstructor n)) svcs)"
proof (induction svcs resolved arbitrary: trace rule: list_all2_induct)
  case Nil
  then show ?case by simp
next
  case (Cons s svcs r rs)
  obtain n svc where s: "s = (n, svc)" by (cases s)
  obtain n' v where r: "r = (n', v)" by (cases r)
  from Cons.hyps(1) have eq: "n' = n" "svc sargs = Inr v" by (simp_all add: s r)
  show ?case
    by (simp add: s r eq Cons.IH)
qed

lemma foldl_update_fresh:
  "distinct (map fst (acc @ es)) \<Longrightarrow>
   foldl (\<lambda>acc (k, v). AList.update k v acc) acc es = acc @ es"
proof (induction es arbitrary: acc)
  case Nil
  then show ?case by simp
next
  case (Cons e es)
  obtain k v where e: "e = (k, v)" by (cases e)
  have fresh: "k \<notin> fst ` set acc" using Cons.prems by (auto simp: e)
  have "distinct (map fst ((acc @ [(k, v)]) @ es))" using Cons.prems by (simp add: e)
  then have "foldl (\<lambda>acc (k, v). AList.update k v acc) (acc @ [(k, v)]) es = (acc @ [(k, v)]) @ es"
    by (rule Cons.IH)
  then show ?case by (simp add: e update_fresh [OF fresh])
qed

lemma fromEntries_distinct: "distinct (map fst es) \<Longrightarrow> fromEntries es = es"
  using foldl_update_fresh [of "[]" es] by (simp add: fromEntries_def)

lemma returns_names: "list_all2 (returns sargs) svcs resolved \<Longrightarrow> map fst resolved = map fst svcs"
  by (induction svcs resolved rule: list_all2_induct) auto

lemma defineServices_created:
  "created (snd (defineServices app namespace cluster factoryConfig trace)) = created trace"
proof -
  have m: "created (snd (mapServices (serviceArgs app namespace cluster factoryConfig)
                           (objectEntries (servicesOf app)) trace)) = created trace"
    by (rule mapServices_created)
  show ?thesis
    using m
    by (cases "mapServices (serviceArgs app namespace cluster factoryConfig)
                 (objectEntries (servicesOf app)) trace")
       (auto simp: defineServices_def Let_def created_append
             split: sum.splits EnvironmentSpec.splits)
qed

lemma defineServices_success:
  assumes "list_all2 (returns (serviceArgs app namespace cluster factoryConfig))
             (objectEntries (servicesOf app)) resolved"
    and "distinct (map fst (objectEntries (servicesOf app)))"
  shows "defineServices app namespace cluster factoryConfig trace =
     (case app_environment app of
        Static environment \<Rightarrow>
          (Inr (resolved, environment),
           trace @ map (\<lambda>(n, svc). Invoked (ServiceConstructor n)) (objectEntries (servicesOf app)))
      | Function f \<Rightarrow>
          (case f resolved of
             Inl e \<Rightarrow> Inl e
           | Inr environment \<Rightarrow> Inr (resolved, environment),
           trace @ map (\<lambda>(n, svc). Invoked (ServiceConstructor n)) (objectEntries (servicesOf app))
                 @ [Invoked (EnvironmentFunction resolved)]))"
proof -
  have "distinct (map fst resolved)" using assms(1,2) by (simp add: returns_names)
  then have "fromEntries resolved = resolved" by (rule fromEntries_distinct)
  then show ?thesis
    using mapServices_success [OF assms(1), of trace]
    by (simp add: defineServices_def Let_def del: servicesOf.simps
        split: EnvironmentSpec.splits sum.splits)
qed

lemma serviceCalls_constructors:
  "serviceCalls (map (\<lambda>(n, svc). Invoked (ServiceConstructor n)) svcs)
     = map ServiceConstructor (map fst svcs)"
  by (induction svcs) (auto simp: serviceCalls_def)

lemma secretsCreated_new:
  "secretsCreated (new kind name args provider ic trace) =
     secretsCreated trace @
       (if kind = Secret
        then [\<lparr>res_kind = kind, res_name = name, res_args = args,
               res_provider = provider, res_ignoreChanges = ic\<rparr>]
        else [])"
  by (simp add: secretsCreated_def created_new)

lemma serviceCalls_new: "serviceCalls (new kind name args provider ic trace) = serviceCalls trace"
  by (simp add: serviceCalls_def invoked_new)

lemma defineApplication_services_failed:
  assumes "defineServices app (namespaceOf app) cluster factoryConfig
             (new Namespace (namespaceOf app)
                (Obj [(''metadata'', Obj [(''name'', Str (namespaceOf app))])])
                (cl_provider cluster) [] trace)
           = (Inl e, trace1)"
  shows "defineApplication app cluster factoryConfig trace = (Inl e, trace1)"
  using assms by (simp add: defineApplication_def Let_def)

lemma defineApplication_after_services:
  assumes "defineServices app (namespaceOf app) cluster factoryConfig
             (new Namespace (namespaceOf app)
                (Obj [(''metadata'', Obj [(''name'', Str (namespaceOf app))])])
                (cl_provider cluster) [] trace)
           = (Inr (services, environment), trace1)"
    and "defineSecrets app (namespaceOf app) cluster environment trace1 = (secrets, trace2)"
  shows "\<exists>evs. snd (defineApplication app cluster factoryConfig trace) =
            snd (defineDeployments (map (deploymentArgs app secrets) (deploymentsOf app))
              (namespaceOf app) cluster factoryConfig trace2) @ evs
          \<and> list_all otherEvent evs
          \<and> (\<forall>r. fst (defineApplication app cluster factoryConfig trace) = Inr r \<longrightarrow>
                 ar_secrets r = secrets \<and> ar_services r = services)"
proof -
  note sec = assms(2)
  obtain rd trace3 where md:
    "defineDeployments (map (deploymentArgs app secrets) (deploymentsOf app))
              (namespaceOf app) cluster factoryConfig trace2
       = (rd, trace3)"
    by (cases "defineDeployments (map (deploymentArgs app secrets) (deploymentsOf app))
              (namespaceOf app) cluster factoryConfig trace2")
  obtain rc trace4 where cd:
    "defineCICD app (namespaceOf app) cluster factoryConfig trace3 = (rc, trace4)"
    by (cases "defineCICD app (namespaceOf app) cluster factoryConfig trace3")
  obtain evs4 where e4: "trace4 = trace3 @ evs4" "list_all otherEvent evs4"
    using defineCICD_trace [of app "namespaceOf app" cluster factoryConfig trace3] cd by auto
  show ?thesis
  proof (cases rd)
    case (Inl e)
    then show ?thesis
      using assms(1) sec md
      by (simp add: defineApplication_def Let_def del: deploymentsOf.simps)
  next
    case (Inr ds)
    show ?thesis
    proof (cases "app_cicd app \<noteq> Some False")
      case False
      then show ?thesis
        using assms(1) sec md Inr
        by (simp add: defineApplication_def Let_def del: deploymentsOf.simps)
    next
      case True
      then show ?thesis
        using assms(1) sec md Inr cd e4
        by (cases rc) (simp_all add: defineApplication_def Let_def del: deploymentsOf.simps)
    qed
  qed
qed

lemma defineApplication_after_services_trace:
  assumes "defineServices app (namespaceOf app) cluster factoryConfig
             (new Namespace (namespaceOf app)
                (Obj [(''metadata'', Obj [(''name'', Str (namespaceOf app))])])
                (cl_provider cluster) [] trace)
           = (Inr (services, environment), trace1)"
  shows "\<exists>evs. snd (defineApplication app cluster factoryConfig trace) =
            snd (defineSecrets app (namespaceOf app) cluster environment trace1) @ evs
          \<and> list_all otherEvent evs"
proof -
  obtain secrets trace2 where sec:
    "defineSecrets app (namespaceOf app) cluster environment trace1 = (secrets, trace2)"
    by (cases "defineSecrets app (namespaceOf app) cluster environment trace1")
  obtain evs where 1:
    "snd (defineApplication app cluster factoryConfig trace) =
       snd (defineDeployments (map (deploymentArgs app secrets) (deploymentsOf app))
              (namespaceOf app) cluster factoryConfig trace2) @ evs" "list_all otherEvent evs"
    using defineApplication_after_services [OF assms sec] by blast
  obtain evs' where 2:
    "snd (defineDeployments (map (deploymentArgs app secrets) (deploymentsOf app))
              (namespaceOf app) cluster factoryConfig trace2) = trace2 @ evs'" "list_all otherEvent evs'"
    using defineDeployments_trace by blast
  have "snd (defineApplication app cluster factoryConfig trace) = trace2 @ (evs' @ evs)"
    using 1(1) 2(1) by simp
  moreover have "list_all otherEvent (evs' @ evs)" using 1(2) 2(2) by simp
  ultimately show ?thesis using sec by auto
qed

lemma serviceCalls_defineSecrets:
  "serviceCalls (snd (defineSecrets app namespace cluster environment trace)) = serviceCalls trace"
  by (simp add: defineSecrets_def serviceCalls_new split: option.splits)

lemma secretsCreated_defineApplication:
  assumes "defineServices app (namespaceOf app) cluster factoryConfig
             (new Namespace (namespaceOf app)
                (Obj [(''metadata'', Obj [(''name'', Str (namespaceOf app))])])
                (cl_provider cluster) [] trace)
           = (Inr (services, environment), trace1)"
  shows "secretsCreated (snd (defineApplication app cluster factoryConfig trace)) =
           secretsCreated trace @
             (case environment of
                None \<Rightarrow> []
              | Some env \<Rightarrow>
                  [\<lparr>res_kind = Secret, res_name = app_name app,
                    res_args = Obj [(''stringData'', Obj (map (\<lambda>(k, v). (k, Str v)) env)),
                                    (''metadata'', Obj [(''name'', Str (''for-'' @ app_name app)),
                                                        (''namespace'', Str (namespaceOf app))])],
                    res_provider = cl_provider cluster, res_ignoreChanges = []\<rparr>])"
proof -
  let ?trace0 = "new Namespace (namespaceOf app)
                (Obj [(''metadata'', Obj [(''name'', Str (namespaceOf app))])])
                (cl_provider cluster) [] trace"
  obtain evs' where whole:
    "snd (defineApplication app cluster factoryConfig trace) =
       snd (defineSecrets app (namespaceOf app) cluster environment trace1) @ evs'"
    "list_all otherEvent evs'"
    using defineApplication_after_services_trace [OF assms] by blast
  have "created trace1 = created ?trace0"
    using defineServices_created [of app "namespaceOf app" cluster factoryConfig ?trace0] assms
    by simp
  then have s1: "secretsCreated trace1 = secretsCreated trace"
    by (simp add: secretsCreated_def created_new)
  have "secretsCreated (snd (defineApplication app cluster factoryConfig trace)) =
          secretsCreated (snd (defineSecrets app (namespaceOf app) cluster environment trace1))"
    using whole by (simp add: secretsCreated_append otherEvents_secretsCreated)
  then show ?thesis
    by (simp add: defineSecrets_def secretsCreated_new s1 secretArgs_def split: option.splits)
qed

section \<open>Preconditions of a deployment\<close>

text \<open>
  Claim C4. A deployment with ingress (the spec's \<open>domains\<close>) set and no container port
  (unset, or the falsy port \<open>0\<close>) fails with the error that names the deployment, and
  the trace is returned as it was: no resource has been created and no callback
  invoked.
\<close>

theorem defineDeployment_missing_port:
  assumes "a_ingress args \<noteq> None" and "\<not> truthyNumber (a_containerPort args)"
  shows "defineDeployment args namespace cluster factoryConfig trace =
     (Inl (Error (''Container port must be defined when using ingress for application ''
                  @ a_name args)), trace)"
  using assms by (rule defineDeployment_port_check)

theorem defineDeployment_missing_port_witness:
  "a_ingress (exampleArgs None) \<noteq> None
   \<and> \<not> truthyNumber (a_containerPort (exampleArgs None))
   \<and> defineDeployment (exampleArgs None) ''web'' exampleCluster bareContext [] =
       (Inl (Error ''Container port must be defined when using ingress for application api''), [])"
proof -
  have 1: "a_ingress (exampleArgs None) \<noteq> None" by (simp add: exampleArgs_def)
  have 2: "\<not> truthyNumber (a_containerPort (exampleArgs None))" by (simp add: exampleArgs_def)
  have 3: "a_name (exampleArgs None) = ''api''" by (simp add: exampleArgs_def)
  show ?thesis
    using 1 2 3 defineDeployment_missing_port [OF 1 2, of "''web''" exampleCluster bareContext "[]"]
    by simp
qed

text \<open>
  Claim C1, as stated, fails in its second part. The deployment \<^verbatim>\<open>api\<close> with ingress and
  port \<open>3000\<close>, composed against a context without \<^verbatim>\<open>exposeService\<close>, fails with the
  error naming it, but its workload resource has been created by then: the check of
  the callback comes after \<^verbatim>\<open>new kubernetes.apps.v1.Deployment\<close>.
\<close>

theorem defineDeployment_exposure_counterexample:
  "fst (defineDeployment (exampleArgs (Some 3000)) ''web'' exampleCluster bareContext []) =
     Inl (Error ''exposeService is required when ingress is configured for deployment api'')
   \<and> length (created (snd (defineDeployment (exampleArgs (Some 3000)) ''web'' exampleCluster
                             bareContext []))) = 1"
proof -
  have 1: "a_ingress (exampleArgs (Some 3000)) \<noteq> None" by (simp add: exampleArgs_def)
  have 2: "truthyNumber (a_containerPort (exampleArgs (Some 3000)))" by (simp add: exampleArgs_def)
  have 3: "fc_exposeService bareContext = None" by (simp add: bareContext_def)
  have 4: "a_name (exampleArgs (Some 3000)) = ''api''" by (simp add: exampleArgs_def)
  show ?thesis
    using defineDeployment_no_exposeService [OF 1 2 3, of "''web''" exampleCluster "[]"] 4
    by auto
qed

text \<open>
  Claim C1, amended. A deployment with ingress set and a truthy container port,
  composed against a context without \<^verbatim>\<open>exposeService\<close>, fails with the
  missing-exposure-callback error naming the deployment. Exactly one resource has been
  created for it by then, the workload resource of that name; nothing is created or
  invoked after the failure (no exposure, no scaler).
\<close>

theorem defineDeployment_missing_exposeService:
  assumes "a_ingress args \<noteq> None" and "truthyNumber (a_containerPort args)"
    and "fc_exposeService factoryConfig = None"
  shows "\<exists>deployment.
     defineDeployment args namespace cluster factoryConfig trace =
       (Inl (Error (''exposeService is required when ingress is configured for deployment ''
                    @ a_name args)), trace @ [Created deployment])
     \<and> res_kind deployment = Deployment \<and> res_name deployment = a_name args"
  using defineDeployment_no_exposeService [OF assms, of namespace cluster trace] by auto

theorem defineDeployment_missing_exposeService_witness:
  "a_ingress (exampleArgs (Some 3000)) \<noteq> None
   \<and> truthyNumber (a_containerPort (exampleArgs (Some 3000)))
   \<and> fc_exposeService bareContext = None
   \<and> (\<exists>deployment.
        defineDeployment (exampleArgs (Some 3000)) ''web'' exampleCluster bareContext [] =
          (Inl (Error ''exposeService is required when ingress is configured for deployment api''),
           [Created deployment])
        \<and> res_kind deployment = Deployment \<and> res_name deployment = ''api'')"
proof -
  have 1: "a_ingress (exampleArgs (Some 3000)) \<noteq> None" by (simp add: exampleArgs_def)
  have 2: "truthyNumber (a_containerPort (exampleArgs (Some 3000)))" by (simp add: exampleArgs_def)
  have 3: "fc_exposeService bareContext = None" by (simp add: bareContext_def)
  have 4: "a_name (exampleArgs (Some 3000)) = ''api''" by (simp add: exampleArgs_def)
  show ?thesis
    using 1 2 3 4
      defineDeployment_missing_exposeService [OF 1 2 3, of "''web''" exampleCluster "[]"]
    by simp
qed

section \<open>CI/CD skip semantics\<close>

text \<open>
  Claim C7. When the context has no \<^verbatim>\<open>cicd\<close>, or its \<^verbatim>\<open>getDeployServiceAccount\<close> is
  absent, the result is the skip marker and the trace is unchanged. When the callback
  returns \<^verbatim>\<open>null\<close>, the result is the skip marker and no resource is created. When
  it returns an identity, exactly two resources are created, a role and then a role
  binding, the subject of the binding is that identity, and the result holds the
  role's name and the binding's subjects.
\<close>

theorem defineCICD_skip_semantics:
  "(fc_cicd factoryConfig = None
      \<or> (\<exists>c. fc_cicd factoryConfig = Some c \<and> cc_getDeployServiceAccount c = None) \<longrightarrow>
      defineCICD app namespace cluster factoryConfig trace = (Inr Skipped, trace))
   \<and> (\<forall>g. getDeployServiceAccountOf factoryConfig = Some g \<and> g cluster = Inr None \<longrightarrow>
          fst (defineCICD app namespace cluster factoryConfig trace) = Inr Skipped
          \<and> created (snd (defineCICD app namespace cluster factoryConfig trace)) = created trace)
   \<and> (\<forall>g account.
          getDeployServiceAccountOf factoryConfig = Some g \<and> g cluster = Inr (Some account) \<longrightarrow>
          (\<exists>role binding.
             created (snd (defineCICD app namespace cluster factoryConfig trace))
               = created trace @ [role, binding]
             \<and> res_kind role = Role \<and> res_kind binding = RoleBinding
             \<and> get (res_args binding) ''subjects''
                 = Arr [Obj [(''kind'', Str ''ServiceAccount''),
                             (''name'', Str (acct_name account)),
                             (''namespace'', Str (acct_namespace account))]]
             \<and> fst (defineCICD app namespace cluster factoryConfig trace)
                 = Inr (RoleGranted (get (get (res_args role) ''metadata'') ''name'')
                                    (get (res_args binding) ''subjects''))))"
proof (intro conjI allI impI)
  assume "fc_cicd factoryConfig = None
      \<or> (\<exists>c. fc_cicd factoryConfig = Some c \<and> cc_getDeployServiceAccount c = None)"
  then have "getDeployServiceAccountOf factoryConfig = None" by auto
  then show "defineCICD app namespace cluster factoryConfig trace = (Inr Skipped, trace)"
    by (rule defineCICD_unconfigured)
next
  fix g
  assume a: "getDeployServiceAccountOf factoryConfig = Some g \<and> g cluster = Inr None"
  then have g: "getDeployServiceAccountOf factoryConfig = Some g" and r: "g cluster = Inr None"
    by blast+
  have d: "defineCICD app namespace cluster factoryConfig trace =
      (Inr Skipped, trace @ [Invoked (GetDeployServiceAccount cluster)])"
    by (rule defineCICD_declined [OF g r])
  show "fst (defineCICD app namespace cluster factoryConfig trace) = Inr Skipped"
    by (simp add: d)
  show "created (snd (defineCICD app namespace cluster factoryConfig trace)) = created trace"
    by (simp add: d created_append)
next
  fix g account
  assume a: "getDeployServiceAccountOf factoryConfig = Some g \<and> g cluster = Inr (Some account)"
  then have g: "getDeployServiceAccountOf factoryConfig = Some g"
    and r: "g cluster = Inr (Some account)"
    by blast+
  have d: "defineCICD app namespace cluster factoryConfig trace =
     (Inr (RoleGranted (Str ''github-deployer'')
             (Arr [Obj [(''kind'', Str ''ServiceAccount''),
                        (''name'', Str (acct_name account)),
                        (''namespace'', Str (acct_namespace account))]])),
      trace @ [Invoked (GetDeployServiceAccount cluster),
               Created \<lparr>res_kind = Role, res_name = app_name app @ ''-github-role'',
                         res_args = roleArgs namespace,
                         res_provider = cl_provider cluster, res_ignoreChanges = []\<rparr>,
               Created \<lparr>res_kind = RoleBinding, res_name = app_name app @ ''-github-binding'',
                         res_args = roleBindingArgs namespace account (Str ''github-deployer''),
                         res_provider = cl_provider cluster, res_ignoreChanges = []\<rparr>])"
    by (rule defineCICD_granted [OF g r])
  show "\<exists>role binding.
          created (snd (defineCICD app namespace cluster factoryConfig trace))
            = created trace @ [role, binding]
          \<and> res_kind role = Role \<and> res_kind binding = RoleBinding
          \<and> get (res_args binding) ''subjects''
              = Arr [Obj [(''kind'', Str ''ServiceAccount''),
                          (''name'', Str (acct_name account)),
                          (''namespace'', Str (acct_namespace account))]]
          \<and> fst (defineCICD app namespace cluster factoryConfig trace)
              = Inr (RoleGranted (get (get (res_args role) ''metadata'') ''name'')
                                 (get (res_args binding) ''subjects''))"
    by (simp add: d created_append roleArgs_def roleBindingArgs_def)
qed

theorem defineCICD_skip_semantics_witness:
  "fc_cicd bareContext = None
   \<and> defineCICD (exampleApp (Static None)) ''web'' exampleCluster bareContext [] = (Inr Skipped, [])
   \<and> getDeployServiceAccountOf (exampleContext (Some (\<lambda>c. Inr None))) = Some (\<lambda>c. Inr None)
   \<and> fst (defineCICD (exampleApp (Static None)) ''web'' exampleCluster
            (exampleContext (Some (\<lambda>c. Inr None))) []) = Inr Skipped
   \<and> created (snd (defineCICD (exampleApp (Static None)) ''web'' exampleCluster
            (exampleContext (Some (\<lambda>c. Inr None))) [])) = []
   \<and> getDeployServiceAccountOf (exampleContext (Some (\<lambda>c. Inr (Some exampleAccount))))
       = Some (\<lambda>c. Inr (Some exampleAccount))
   \<and> (\<exists>role binding.
         created (snd (defineCICD (exampleApp (Static None)) ''web'' exampleCluster
            (exampleContext (Some (\<lambda>c. Inr (Some exampleAccount)))) [])) = [role, binding]
         \<and> res_kind role = Role \<and> res_kind binding = RoleBinding
         \<and> get (res_args binding) ''subjects''
             = Arr [Obj [(''kind'', Str ''ServiceAccount''),
                         (''name'', Str ''github-actions''),
                         (''namespace'', Str ''ci'')]])"
proof -
  have 1: "fc_cicd bareContext = None"
    by (simp add: bareContext_def)
  have 2: "getDeployServiceAccountOf (exampleContext (Some (\<lambda>c. Inr None))) = Some (\<lambda>c. Inr None)"
    by (simp add: exampleContext_def)
  have 3: "getDeployServiceAccountOf (exampleContext (Some (\<lambda>c. Inr (Some exampleAccount))))
       = Some (\<lambda>c. Inr (Some exampleAccount))"
    by (simp add: exampleContext_def)
  have 4: "acct_name exampleAccount = ''github-actions''" "acct_namespace exampleAccount = ''ci''"
    by (simp_all add: exampleAccount_def)
  note a = defineCICD_skip_semantics
      [of bareContext "exampleApp (Static None)" "''web''" exampleCluster "[]"]
  note b = defineCICD_skip_semantics
      [of "exampleContext (Some (\<lambda>c. Inr None))" "exampleApp (Static None)" "''web''"
          exampleCluster "[]"]
  note c = defineCICD_skip_semantics
      [of "exampleContext (Some (\<lambda>c. Inr (Some exampleAccount)))" "exampleApp (Static None)"
          "''web''" exampleCluster "[]"]
  have a': "defineCICD (exampleApp (Static None)) ''web'' exampleCluster bareContext []
              = (Inr Skipped, [])"
    using a 1 by blast
  have b': "fst (defineCICD (exampleApp (Static None)) ''web'' exampleCluster
            (exampleContext (Some (\<lambda>c. Inr None))) []) = Inr Skipped
      \<and> created (snd (defineCICD (exampleApp (Static None)) ''web'' exampleCluster
            (exampleContext (Some (\<lambda>c. Inr None))) [])) = created []"
    using b 2 by blast
  have c': "\<exists>role binding.
         created (snd (defineCICD (exampleApp (Static None)) ''web'' exampleCluster
            (exampleContext (Some (\<lambda>c. Inr (Some exampleAccount)))) [])) = created [] @ [role, binding]
         \<and> res_kind role = Role \<and> res_kind binding = RoleBinding
         \<and> get (res_args binding) ''subjects''
             = Arr [Obj [(''kind'', Str ''ServiceAccount''),
                         (''name'', Str (acct_name exampleAccount)),
                         (''namespace'', Str (acct_namespace exampleAccount))]]"
    using c 3 by blast
  show ?thesis using 1 2 3 a' b' c' by (simp add: 4)
qed

section \<open>The secret bundle\<close>

text \<open>
  Claim C3, as stated, fails for the empty environment: \<^verbatim>\<open>!environment\<close> is false of
  \<^verbatim>\<open>{}\<close>, so an application whose environment is the empty mapping gets a secret
  bundle with an empty payload.
\<close>

theorem defineApplication_empty_environment_counterexample:
  "secretsCreated (snd (defineApplication
      \<lparr>app_name = ''web'', app_namespace = None, app_repository = None,
       app_environment = Static (Some []), app_services = None,
       app_deployments = None, app_cicd = Some False\<rparr>
      exampleCluster bareContext []))
   = [\<lparr>res_kind = Secret, res_name = ''web'',
       res_args = Obj [(''stringData'', Obj []),
                       (''metadata'', Obj [(''name'', Str ''for-web''),
                                           (''namespace'', Str ''web'')])],
       res_provider = ''cluster-provider'', res_ignoreChanges = []\<rparr>]"
  by (simp add: defineApplication_def Let_def defineServices_def fromEntries_def
      objectEntries_def defineSecrets_def new_def secretsCreated_def namespaceOf_def
      secretArgs_def exampleCluster_def)

text \<open>
  Claim C3, amended. Once the services have resolved and the environment is computed:
  if the environment is present (any mapping, the empty one included), exactly one
  secret bundle is created during the composition, with the application's name as its
  logical name, \<^verbatim>\<open>for-<name>\<close> as its metadata name and the environment as its
  payload; if the environment is absent, no secret bundle is created. The deployments
  are composed, in order, by \<^verbatim>\<open>defineDeployment\<close> on the arguments built from the
  entries, and the \<open>secrets\<close> argument of each is the reference \<^verbatim>\<open>for-<name>\<close> in the
  first case and no reference in the second, unless the entry has a \<open>secrets\<close>
  property of its own, which then takes its place. (An entry whose name is present
  with the value \<^verbatim>\<open>undefined\<close> is left out.) The result's \<open>secrets\<close> field is the
  reference.
\<close>

theorem defineApplication_secret_bundle:
  assumes "defineServices app (namespaceOf app) cluster factoryConfig
             (new Namespace (namespaceOf app)
                (Obj [(''metadata'', Obj [(''name'', Str (namespaceOf app))])])
                (cl_provider cluster) [] trace)
           = (Inr (services, environment), trace1)"
    and "\<forall>cfg \<in> set (deploymentsOf app). dc_name cfg \<noteq> Present None"
  shows "secretsCreated (snd (defineApplication app cluster factoryConfig trace)) =
           secretsCreated trace @
             (case environment of
                None \<Rightarrow> []
              | Some env \<Rightarrow>
                  [\<lparr>res_kind = Secret, res_name = app_name app,
                    res_args = Obj [(''stringData'', Obj (map (\<lambda>(k, v). (k, Str v)) env)),
                                    (''metadata'', Obj [(''name'', Str (''for-'' @ app_name app)),
                                                        (''namespace'', Str (namespaceOf app))])],
                    res_provider = cl_provider cluster, res_ignoreChanges = []\<rparr>])
     \<and> (\<exists>argss evs.
           list_all2
             (\<lambda>cfg args.
                args = deploymentArgs app
                  (case environment of None \<Rightarrow> None | Some env \<Rightarrow> Some (''for-'' @ app_name app))
                  cfg
                \<and> a_secrets args =
                    (case dc_secrets cfg of
                       Absent \<Rightarrow>
                         (case environment of
                            None \<Rightarrow> None
                          | Some env \<Rightarrow> Some (''for-'' @ app_name app))
                     | Present own \<Rightarrow> own))
             (deploymentsOf app) argss
           \<and> snd (defineApplication app cluster factoryConfig trace) =
               snd (defineDeployments argss (namespaceOf app) cluster factoryConfig
                      (snd (defineSecrets app (namespaceOf app) cluster environment trace1))) @ evs
           \<and> list_all otherEvent evs)
     \<and> (\<forall>r. fst (defineApplication app cluster factoryConfig trace) = Inr r \<longrightarrow>
            ar_secrets r =
              (case environment of None \<Rightarrow> None | Some env \<Rightarrow> Some (''for-'' @ app_name app)))"
proof -
  let ?ref = "case environment of None \<Rightarrow> None | Some env \<Rightarrow> Some (''for-'' @ app_name app)"
  let ?argss = "map (deploymentArgs app ?ref) (deploymentsOf app)"
  have "fst (defineSecrets app (namespaceOf app) cluster environment trace1) = ?ref"
    by (simp add: defineSecrets_def split: option.splits)
  then obtain trace2 where sec:
    "defineSecrets app (namespaceOf app) cluster environment trace1 = (?ref, trace2)"
    by (cases "defineSecrets app (namespaceOf app) cluster environment trace1") simp
  obtain evs where stage:
    "snd (defineApplication app cluster factoryConfig trace) =
       snd (defineDeployments ?argss (namespaceOf app) cluster factoryConfig trace2) @ evs"
    "list_all otherEvent evs"
    "\<forall>r. fst (defineApplication app cluster factoryConfig trace) = Inr r \<longrightarrow>
         ar_secrets r = ?ref \<and> ar_services r = services"
    using defineApplication_after_services [OF assms(1) sec] by blast
  have args: "list_all2
             (\<lambda>cfg args.
                args = deploymentArgs app ?ref cfg
                \<and> a_secrets args = (case dc_secrets cfg of Absent \<Rightarrow> ?ref | Present own \<Rightarrow> own))
             (deploymentsOf app) ?argss"
    by (simp add: list_all2_map2 list_all2_same deploymentArgs_def del: deploymentsOf.simps)
  have second: "\<exists>argss evs.
           list_all2
             (\<lambda>cfg args.
                args = deploymentArgs app ?ref cfg
                \<and> a_secrets args = (case dc_secrets cfg of Absent \<Rightarrow> ?ref | Present own \<Rightarrow> own))
             (deploymentsOf app) argss
           \<and> snd (defineApplication app cluster factoryConfig trace) =
               snd (defineDeployments argss (namespaceOf app) cluster factoryConfig
                      (snd (defineSecrets app (namespaceOf app) cluster environment trace1))) @ evs
           \<and> list_all otherEvent evs"
    using args stage(1,2) sec by (intro exI [of _ ?argss] exI [of _ evs]) simp
  show ?thesis
    using secretsCreated_defineApplication [OF assms(1)] second stage(3) by blast
qed

text \<open>
  In the example the one deployment has no \<open>secrets\<close> of its own and no overrides: its
  workload resource is created with the reference in the container's \<^verbatim>\<open>envFrom\<close>.
\<close>

lemma defineApplication_example_envFrom:
  "map (\<lambda>r. get (get (get (get (res_args r) ''spec'') ''template'') ''spec'') ''containers'')
     (filter (\<lambda>r. res_kind r = Deployment)
        (created (snd (defineApplication (exampleApp (Static (Some [(''MODE'', ''production'')])))
                         exampleCluster bareContext []))))
   = [Arr [Obj [(''name'', Str ''api''),
                (''image'', Str ''org/app:v1''),
                (''ports'', Arr [Obj [(''containerPort'', Num 3000),
                                      (''name'', Str ''http''),
                                      (''protocol'', Str ''TCP'')]]),
                (''envFrom'', Arr [Obj [(''secretRef'', Obj [(''name'', Str ''for-web'')])]]),
                (''livenessProbe'', Undefined),
                (''readinessProbe'', Undefined)]]]"
  by code_simp

theorem defineApplication_secret_bundle_witness:
  "defineServices (exampleApp (Static (Some [(''MODE'', ''production'')])))
      (namespaceOf (exampleApp (Static (Some [(''MODE'', ''production'')]))))
      exampleCluster bareContext
      (new Namespace (namespaceOf (exampleApp (Static (Some [(''MODE'', ''production'')]))))
         (Obj [(''metadata'', Obj [(''name'',
            Str (namespaceOf (exampleApp (Static (Some [(''MODE'', ''production'')])))))])])
         (cl_provider exampleCluster) [] [])
    = (Inr (exampleResolved, Some [(''MODE'', ''production'')]),
       new Namespace ''web'' (Obj [(''metadata'', Obj [(''name'', Str ''web'')])])
         ''cluster-provider'' [] []
       @ [Invoked (ServiceConstructor ''redis''), Invoked (ServiceConstructor ''queue'')])
   \<and> map dc_name (deploymentsOf (exampleApp (Static (Some [(''MODE'', ''production'')]))))
       = [Present (Some ''api'')]
   \<and> secretsCreated (snd (defineApplication (exampleApp (Static (Some [(''MODE'', ''production'')])))
                              exampleCluster bareContext []))
       = [\<lparr>res_kind = Secret, res_name = ''web'',
           res_args = Obj [(''stringData'', Obj [(''MODE'', Str ''production'')]),
                           (''metadata'', Obj [(''name'', Str ''for-web''),
                                               (''namespace'', Str ''web'')])],
           res_provider = ''cluster-provider'', res_ignoreChanges = []\<rparr>]
   \<and> (\<exists>args evs.
         a_secrets args = Some ''for-web''
         \<and> snd (defineApplication (exampleApp (Static (Some [(''MODE'', ''production'')])))
                  exampleCluster bareContext []) =
             snd (defineDeployments [args] ''web'' exampleCluster bareContext
                    (snd (defineSecrets (exampleApp (Static (Some [(''MODE'', ''production'')])))
                            ''web'' exampleCluster (Some [(''MODE'', ''production'')])
                            (new Namespace ''web'' (Obj [(''metadata'', Obj [(''name'', Str ''web'')])])
                               ''cluster-provider'' [] []
                             @ [Invoked (ServiceConstructor ''redis''),
                                Invoked (ServiceConstructor ''queue'')])))) @ evs)
   \<and> (\<exists>r. fst (defineApplication (exampleApp (Static (Some [(''MODE'', ''production'')])))
                    exampleCluster bareContext []) = Inr r
          \<and> ar_secrets r = Some ''for-web'')"
proof -
  let ?app = "exampleApp (Static (Some [(''MODE'', ''production'')]))"
  let ?trace1 = "new Namespace ''web'' (Obj [(''metadata'', Obj [(''name'', Str ''web'')])])
         ''cluster-provider'' [] []
       @ [Invoked (ServiceConstructor ''redis''), Invoked (ServiceConstructor ''queue'')]"
  have ns: "namespaceOf ?app = ''web''" by (simp add: namespaceOf_def exampleApp_def)
  have nm: "app_name ?app = ''web''" by (simp add: exampleApp_def)
  have pr: "cl_provider exampleCluster = ''cluster-provider''" by (simp add: exampleCluster_def)
  have ds: "deploymentsOf ?app = [exampleConfig]" by (simp add: exampleApp_def)
  have plain: "\<forall>n \<in> set (map fst exampleServices). \<not> isArrayIndex n"
    by (simp add: exampleServices_def isArrayIndex_def)
  have oe: "objectEntries (servicesOf ?app) = exampleServices"
    using objectEntries_plain [OF plain] by (simp add: exampleApp_def)
  have h: "defineServices ?app (namespaceOf ?app) exampleCluster bareContext
      (new Namespace (namespaceOf ?app)
         (Obj [(''metadata'', Obj [(''name'', Str (namespaceOf ?app))])])
         (cl_provider exampleCluster) [] [])
    = (Inr (exampleResolved, Some [(''MODE'', ''production'')]), ?trace1)"
    unfolding ns pr defineServices_def oe
    by (simp add: exampleApp_def exampleServices_def exampleResolved_def
        serviceArgs_def fromEntries_def)
  have names: "\<forall>cfg \<in> set (deploymentsOf ?app). dc_name cfg \<noteq> Present None"
    unfolding ds by (simp add: exampleConfig_def)
  have e: "secretsCreated [] = []" by (simp add: secretsCreated_def)
  note t = defineApplication_secret_bundle [OF h names]
  have first: "secretsCreated (snd (defineApplication ?app exampleCluster bareContext []))
       = [\<lparr>res_kind = Secret, res_name = ''web'',
           res_args = Obj [(''stringData'', Obj [(''MODE'', Str ''production'')]),
                           (''metadata'', Obj [(''name'', Str ''for-web''),
                                               (''namespace'', Str ''web'')])],
           res_provider = ''cluster-provider'', res_ignoreChanges = []\<rparr>]"
    using t by (simp add: ns nm pr e)
  have ref: "(case Some [(''MODE'', ''production'')] of
               None \<Rightarrow> None
             | Some env \<Rightarrow> Some (''for-'' @ app_name ?app)) = Some ''for-web''"
    by (simp add: nm)
  from t have "\<exists>argss evs.
       list_all2
         (\<lambda>cfg args.
            args = deploymentArgs ?app (Some ''for-web'') cfg
            \<and> a_secrets args = (case dc_secrets cfg of Absent \<Rightarrow> Some ''for-web'' | Present own \<Rightarrow> own))
         [exampleConfig] argss
       \<and> snd (defineApplication ?app exampleCluster bareContext []) =
           snd (defineDeployments argss ''web'' exampleCluster bareContext
                  (snd (defineSecrets ?app ''web'' exampleCluster
                          (Some [(''MODE'', ''production'')]) ?trace1))) @ evs
       \<and> list_all otherEvent evs"
    unfolding ref ds ns by (rule conjunct1 [OF conjunct2])
  then obtain argss evs where a:
    "list_all2
       (\<lambda>cfg args.
          args = deploymentArgs ?app (Some ''for-web'') cfg
          \<and> a_secrets args = (case dc_secrets cfg of Absent \<Rightarrow> Some ''for-web'' | Present own \<Rightarrow> own))
       [exampleConfig] argss"
    "snd (defineApplication ?app exampleCluster bareContext []) =
       snd (defineDeployments argss ''web'' exampleCluster bareContext
              (snd (defineSecrets ?app ''web'' exampleCluster
                      (Some [(''MODE'', ''production'')]) ?trace1))) @ evs"
    by blast
  from a(1) obtain args where args: "argss = [args]"
    "a_secrets args = (case dc_secrets exampleConfig of
                         Absent \<Rightarrow> Some ''for-web'' | Present own \<Rightarrow> own)"
    by (auto simp: list_all2_Cons1)
  have sec: "a_secrets args = Some ''for-web''"
    using args(2) by (simp add: exampleConfig_def)
  have second: "\<exists>args evs.
         a_secrets args = Some ''for-web''
         \<and> snd (defineApplication ?app exampleCluster bareContext []) =
             snd (defineDeployments [args] ''web'' exampleCluster bareContext
                    (snd (defineSecrets ?app ''web'' exampleCluster
                            (Some [(''MODE'', ''production'')]) ?trace1))) @ evs"
    using sec a(2) unfolding args(1) by blast
  have "case fst (defineApplication ?app exampleCluster bareContext []) of
          Inl e \<Rightarrow> False | Inr r \<Rightarrow> True"
    by code_simp
  then obtain r where r: "fst (defineApplication ?app exampleCluster bareContext []) = Inr r"
    by (cases "fst (defineApplication ?app exampleCluster bareContext [])") simp_all
  have "ar_secrets r = Some ''for-web''"
    using t r by (simp add: nm)
  then have third: "\<exists>r. fst (defineApplication ?app exampleCluster bareContext []) = Inr r
          \<and> ar_secrets r = Some ''for-web''"
    using r by blast
  have entries: "map dc_name (deploymentsOf ?app) = [Present (Some ''api'')]"
    unfolding ds by (simp add: exampleConfig_def)
  show ?thesis
    by (intro conjI) (rule h entries first second third)+
qed

section \<open>Service constructors and the environment function\<close>

text \<open>
  Claim C8, as stated, fails for the order of the calls: the constructors are called in
  the order in which \<^verbatim>\<open>Object.entries\<close> lists the services mapping, which is not the
  order of the declaration when a name is an array index. Services declared in the
  order \<^verbatim>\<open>b\<close>, \<^verbatim>\<open>2\<close>, \<^verbatim>\<open>a\<close>, all of which return, are called in the order \<^verbatim>\<open>2\<close>, \<^verbatim>\<open>b\<close>,
  \<^verbatim>\<open>a\<close>.
\<close>

theorem defineApplication_declaration_order_counterexample:
  "map fst (servicesOf orderApp) = [''b'', ''2'', ''a'']
   \<and> fst (defineApplication orderApp exampleCluster bareContext []) =
       Inr \<lparr>ar_namespace = ''web'', ar_secrets = None,
            ar_services = [(''2'', Str ''first''), (''b'', Str ''second''), (''a'', Str ''third'')],
            ar_deployments = [], ar_cicd = None\<rparr>
   \<and> serviceCalls (snd (defineApplication orderApp exampleCluster bareContext [])) =
       [ServiceConstructor ''2'', ServiceConstructor ''b'', ServiceConstructor ''a'']"
proof -
  have index: "isArrayIndex ''2''" "\<not> isArrayIndex ''b''" "\<not> isArrayIndex ''a''"
    by (simp_all add: isArrayIndex_def readNat_def digitValue_def)
  have sv: "servicesOf orderApp = orderServices"
    by (simp add: orderApp_def)
  have oe: "objectEntries orderServices =
              [(''2'', \<lambda>a. Inr (Str ''first'')),
               (''b'', \<lambda>a. Inr (Str ''second'')),
               (''a'', \<lambda>a. Inr (Str ''third''))]"
    by (simp add: objectEntries_def orderServices_def index)
  have fields: "app_environment orderApp = Static None" "app_deployments orderApp = None"
    "app_cicd orderApp = Some False" "namespaceOf orderApp = ''web''"
    by (simp_all add: orderApp_def namespaceOf_def)
  have services: "defineServices orderApp ''web'' exampleCluster bareContext trace =
      (Inr ([(''2'', Str ''first''), (''b'', Str ''second''), (''a'', Str ''third'')], None),
       trace @ [Invoked (ServiceConstructor ''2''), Invoked (ServiceConstructor ''b''),
                Invoked (ServiceConstructor ''a'')])" for trace
    unfolding defineServices_def sv oe
    by (simp add: fromEntries_def fields)
  have run: "defineApplication orderApp exampleCluster bareContext [] =
      (Inr \<lparr>ar_namespace = ''web'', ar_secrets = None,
            ar_services = [(''2'', Str ''first''), (''b'', Str ''second''), (''a'', Str ''third'')],
            ar_deployments = [], ar_cicd = None\<rparr>,
       new Namespace ''web'' (Obj [(''metadata'', Obj [(''name'', Str ''web'')])])
         (cl_provider exampleCluster) [] []
       @ [Invoked (ServiceConstructor ''2''), Invoked (ServiceConstructor ''b''),
          Invoked (ServiceConstructor ''a'')])"
    unfolding defineApplication_def
    by (simp add: Let_def fields services defineSecrets_def)
  have names: "map fst (servicesOf orderApp) = [''b'', ''2'', ''a'']"
    unfolding sv by (simp add: orderServices_def)
  have calls: "serviceCalls (snd (defineApplication orderApp exampleCluster bareContext [])) =
       [ServiceConstructor ''2'', ServiceConstructor ''b'', ServiceConstructor ''a'']"
    unfolding run by (simp add: serviceCalls_def new_def)
  have result: "fst (defineApplication orderApp exampleCluster bareContext []) =
       Inr \<lparr>ar_namespace = ''web'', ar_secrets = None,
            ar_services = [(''2'', Str ''first''), (''b'', Str ''second''), (''a'', Str ''third'')],
            ar_deployments = [], ar_cicd = None\<rparr>"
    unfolding run by simp
  show ?thesis
    by (intro conjI) (rule names result calls)+
qed

text \<open>
  Claim C8, amended. In a composition whose service constructors all return, the calls
  to service constructors and to the environment function are, in this order: every
  declared constructor once, in the order in which \<^verbatim>\<open>Object.entries\<close> lists the services
  mapping, that is the names that are array indices first, in ascending numeric order,
  and then the other names in the order of the declaration (so in the order of the
  declaration when no name is an array index); and then, when the environment is a
  function, that function once, with the resolved services map as its argument. When
  the function returns a mapping, the secret bundle created during the composition
  has that mapping as its payload.
\<close>

theorem defineApplication_service_calls:
  assumes "list_all2 (returns (serviceArgs app (namespaceOf app) cluster factoryConfig))
             (objectEntries (servicesOf app)) resolved"
    and "distinct (map fst (servicesOf app))"
  shows "serviceCalls (snd (defineApplication app cluster factoryConfig trace)) =
           serviceCalls trace
             @ map ServiceConstructor
                 (sort_key readNat (filter isArrayIndex (map fst (servicesOf app)))
                  @ filter (\<lambda>n. \<not> isArrayIndex n) (map fst (servicesOf app)))
             @ (case app_environment app of
                  Static environment \<Rightarrow> []
                | Function f \<Rightarrow> [EnvironmentFunction resolved])
     \<and> ((\<forall>n \<in> set (map fst (servicesOf app)). \<not> isArrayIndex n) \<longrightarrow>
          serviceCalls (snd (defineApplication app cluster factoryConfig trace)) =
            serviceCalls trace
              @ map ServiceConstructor (map fst (servicesOf app))
              @ (case app_environment app of
                   Static environment \<Rightarrow> []
                 | Function f \<Rightarrow> [EnvironmentFunction resolved]))
     \<and> distinct (sort_key readNat (filter isArrayIndex (map fst (servicesOf app)))
                  @ filter (\<lambda>n. \<not> isArrayIndex n) (map fst (servicesOf app)))
     \<and> set (sort_key readNat (filter isArrayIndex (map fst (servicesOf app)))
             @ filter (\<lambda>n. \<not> isArrayIndex n) (map fst (servicesOf app)))
         = set (map fst (servicesOf app))
     \<and> (\<forall>f env. app_environment app = Function f \<and> f resolved = Inr (Some env) \<longrightarrow>
           secretsCreated (snd (defineApplication app cluster factoryConfig trace)) =
             secretsCreated trace @
               [\<lparr>res_kind = Secret, res_name = app_name app,
                 res_args = Obj [(''stringData'', Obj (map (\<lambda>(k, v). (k, Str v)) env)),
                                 (''metadata'', Obj [(''name'', Str (''for-'' @ app_name app)),
                                                     (''namespace'', Str (namespaceOf app))])],
                 res_provider = cl_provider cluster, res_ignoreChanges = []\<rparr>])"
proof -
  let ?trace0 = "new Namespace (namespaceOf app)
                (Obj [(''metadata'', Obj [(''name'', Str (namespaceOf app))])])
                (cl_provider cluster) [] trace"
  let ?names = "sort_key readNat (filter isArrayIndex (map fst (servicesOf app)))
                  @ filter (\<lambda>n. \<not> isArrayIndex n) (map fst (servicesOf app))"
  let ?envcall = "case app_environment app of
                    Static environment \<Rightarrow> []
                  | Function f \<Rightarrow> [EnvironmentFunction resolved]"
  have names: "map fst (objectEntries (servicesOf app)) = ?names"
    by (rule objectEntries_names)
  have dist: "distinct (map fst (objectEntries (servicesOf app)))"
    using assms(2) by (rule objectEntries_distinct)
  note ds = defineServices_success [OF assms(1) dist, of ?trace0]
  obtain res trace1 where r:
    "defineServices app (namespaceOf app) cluster factoryConfig ?trace0 = (res, trace1)"
    by (cases "defineServices app (namespaceOf app) cluster factoryConfig ?trace0")
  have calls1: "serviceCalls trace1 =
      serviceCalls trace @ map ServiceConstructor (map fst (objectEntries (servicesOf app)))
        @ ?envcall"
    using ds r
    by (auto simp: serviceCalls_append serviceCalls_new serviceCalls_constructors
        simp del: servicesOf.simps split: EnvironmentSpec.splits)
       (simp_all add: serviceCalls_def)
  have "serviceCalls (snd (defineApplication app cluster factoryConfig trace)) =
      serviceCalls trace @ map ServiceConstructor (map fst (objectEntries (servicesOf app)))
        @ ?envcall"
  proof (cases res)
    case (Inl e)
    then have "defineApplication app cluster factoryConfig trace = (Inl e, trace1)"
      using r by (intro defineApplication_services_failed) simp
    then show ?thesis using calls1 by simp
  next
    case (Inr p)
    obtain services environment where p: "p = (services, environment)" by (cases p)
    have r': "defineServices app (namespaceOf app) cluster factoryConfig ?trace0
                = (Inr (services, environment), trace1)"
      using r Inr p by simp
    obtain evs where whole:
      "snd (defineApplication app cluster factoryConfig trace) =
         snd (defineSecrets app (namespaceOf app) cluster environment trace1) @ evs"
      "list_all otherEvent evs"
      using defineApplication_after_services_trace [OF r'] by blast
    show ?thesis
      using whole calls1
      by (simp add: serviceCalls_append otherEvents_serviceCalls serviceCalls_defineSecrets)
  qed
  then have first: "serviceCalls (snd (defineApplication app cluster factoryConfig trace)) =
      serviceCalls trace @ map ServiceConstructor ?names @ ?envcall"
    unfolding names .
  have plain: "?names = map fst (servicesOf app)"
    if "\<forall>n \<in> set (map fst (servicesOf app)). \<not> isArrayIndex n"
    using objectEntries_plain [OF that] names by simp
  have dnames: "distinct ?names"
    using dist unfolding names .
  have snames: "set ?names = set (map fst (servicesOf app))"
    using objectEntries_set [of "servicesOf app"] names by (metis set_map)
  have second: "secretsCreated (snd (defineApplication app cluster factoryConfig trace)) =
             secretsCreated trace @
               [\<lparr>res_kind = Secret, res_name = app_name app,
                 res_args = Obj [(''stringData'', Obj (map (\<lambda>(k, v). (k, Str v)) env)),
                                 (''metadata'', Obj [(''name'', Str (''for-'' @ app_name app)),
                                                     (''namespace'', Str (namespaceOf app))])],
                 res_provider = cl_provider cluster, res_ignoreChanges = []\<rparr>]"
    if f: "app_environment app = Function f \<and> f resolved = Inr (Some env)" for f env
  proof -
    have "defineServices app (namespaceOf app) cluster factoryConfig ?trace0
            = (Inr (resolved, Some env), trace1)"
      using ds r f by (simp del: servicesOf.simps)
    from secretsCreated_defineApplication [OF this] show ?thesis by simp
  qed
  have plainCalls: "serviceCalls (snd (defineApplication app cluster factoryConfig trace)) =
            serviceCalls trace @ map ServiceConstructor (map fst (servicesOf app)) @ ?envcall"
    if "\<forall>n \<in> set (map fst (servicesOf app)). \<not> isArrayIndex n"
    using first unfolding plain [OF that] .
  show ?thesis
    using first plainCalls dnames snames second by blast
qed

theorem defineApplication_service_calls_witness:
  "list_all2 (returns (serviceArgs (exampleApp (Function exampleEnvironment))
                 (namespaceOf (exampleApp (Function exampleEnvironment)))
                 exampleCluster bareContext))
      (objectEntries (servicesOf (exampleApp (Function exampleEnvironment)))) exampleResolved
   \<and> distinct (map fst (servicesOf (exampleApp (Function exampleEnvironment))))
   \<and> filter isArrayIndex (map fst (servicesOf (exampleApp (Function exampleEnvironment)))) = []
   \<and> serviceCalls (snd (defineApplication (exampleApp (Function exampleEnvironment))
                           exampleCluster bareContext []))
       = [ServiceConstructor ''redis'', ServiceConstructor ''queue'',
          EnvironmentFunction exampleResolved]
   \<and> exampleEnvironment exampleResolved = Inr (Some [(''REDIS_URL'', ''redis://web-redis-master'')])
   \<and> secretsCreated (snd (defineApplication (exampleApp (Function exampleEnvironment))
                             exampleCluster bareContext []))
       = [\<lparr>res_kind = Secret, res_name = ''web'',
           res_args = Obj [(''stringData'', Obj [(''REDIS_URL'', Str ''redis://web-redis-master'')]),
                           (''metadata'', Obj [(''name'', Str ''for-web''),
                                               (''namespace'', Str ''web'')])],
           res_provider = ''cluster-provider'', res_ignoreChanges = []\<rparr>]"
proof -
  let ?app = "exampleApp (Function exampleEnvironment)"
  have ns: "namespaceOf ?app = ''web''" by (simp add: namespaceOf_def exampleApp_def)
  have nm: "app_name ?app = ''web''" by (simp add: exampleApp_def)
  have pr: "cl_provider exampleCluster = ''cluster-provider''" by (simp add: exampleCluster_def)
  have env: "app_environment ?app = Function exampleEnvironment" by (simp add: exampleApp_def)
  have sv: "servicesOf ?app = exampleServices" by (simp add: exampleApp_def)
  have names: "map fst exampleServices = [''redis'', ''queue'']"
    by (simp add: exampleServices_def)
  have 0: "\<forall>n \<in> set (map fst (servicesOf ?app)). \<not> isArrayIndex n"
    unfolding sv names by (simp add: isArrayIndex_def)
  have oe: "objectEntries (servicesOf ?app) = exampleServices"
    using objectEntries_plain [OF 0] sv by simp
  have 1: "list_all2 (returns (serviceArgs ?app (namespaceOf ?app) exampleCluster bareContext))
      (objectEntries (servicesOf ?app)) exampleResolved"
    unfolding oe ns
    by (simp add: exampleServices_def exampleResolved_def serviceArgs_def exampleApp_def)
  have 2: "distinct (map fst (servicesOf ?app))"
    unfolding sv by (simp add: exampleServices_def)
  have 3: "exampleEnvironment exampleResolved = Inr (Some [(''REDIS_URL'', ''redis://web-redis-master'')])"
    by (simp add: exampleEnvironment_def exampleResolved_def)
  have e: "secretsCreated [] = []" "serviceCalls [] = []"
    by (simp_all add: secretsCreated_def serviceCalls_def)
  note t = defineApplication_service_calls [OF 1 2, of "[]"]
  from t 0 have "serviceCalls (snd (defineApplication ?app exampleCluster bareContext [])) =
            serviceCalls [] @ map ServiceConstructor (map fst (servicesOf ?app))
              @ (case app_environment ?app of
                   Static environment \<Rightarrow> []
                 | Function f \<Rightarrow> [EnvironmentFunction exampleResolved])"
    by blast
  then have a: "serviceCalls (snd (defineApplication ?app exampleCluster bareContext []))
       = [ServiceConstructor ''redis'', ServiceConstructor ''queue'',
          EnvironmentFunction exampleResolved]"
    unfolding sv names env e by simp
  from t env 3 have "secretsCreated (snd (defineApplication ?app exampleCluster bareContext [])) =
             secretsCreated [] @
               [\<lparr>res_kind = Secret, res_name = app_name ?app,
                 res_args = Obj [(''stringData'',
                                  Obj (map (\<lambda>(k, v). (k, Str v))
                                         [(''REDIS_URL'', ''redis://web-redis-master'')])),
                                 (''metadata'', Obj [(''name'', Str (''for-'' @ app_name ?app)),
                                                     (''namespace'', Str (namespaceOf ?app))])],
                 res_provider = cl_provider exampleCluster, res_ignoreChanges = []\<rparr>]"
    by blast
  then have b: "secretsCreated (snd (defineApplication ?app exampleCluster bareContext []))
       = [\<lparr>res_kind = Secret, res_name = ''web'',
           res_args = Obj [(''stringData'', Obj [(''REDIS_URL'', Str ''redis://web-redis-master'')]),
                           (''metadata'', Obj [(''name'', Str ''for-web''),
                                               (''namespace'', Str ''web'')])],
           res_provider = ''cluster-provider'', res_ignoreChanges = []\<rparr>]"
    unfolding ns nm pr e by simp
  have none: "filter isArrayIndex (map fst (servicesOf ?app)) = []"
    using 0 by (simp add: filter_empty_conv del: servicesOf.simps)
  show ?thesis
    by (intro conjI) (rule none 1 2 3 a b)+
qed

section \<open>The merge leaves its arguments as they are\<close>

lemma unchanged_refl: "unchanged h h"
  by (simp add: unchanged_def)

lemma unchangedExcept_refl: "unchangedExcept r h h"
  by (simp add: unchangedExcept_def)

lemma unchanged_imp_except: "unchanged h h' \<Longrightarrow> unchangedExcept r h h'"
  by (simp add: unchanged_def unchangedExcept_def)

lemma unchangedExcept_trans:
  "unchangedExcept r h h1 \<Longrightarrow> unchangedExcept r h1 h2 \<Longrightarrow> unchangedExcept r h h2"
  by (auto simp: unchangedExcept_def)

lemma unchanged_halloc: "halloc h ob = (a, h') \<Longrightarrow> unchanged h h'"
  by (auto simp: halloc_def unchanged_def nth_append)

lemma unchangedExcept_hset: "hset h r key v = Some h' \<Longrightarrow> unchangedExcept r h h'"
  by (auto simp: hset_def unchangedExcept_def split: option.splits hobj.splits)

lemma unchanged_take: "unchanged h h' \<longleftrightarrow> take (length h) h' = h"
  by (auto simp: unchanged_def list_eq_iff_nth_eq)

lemma mergeLoopH_frame:
  assumes IH: "\<And>h t s v h'. deepMergeH fuel h t s = Some (v, h') \<Longrightarrow> unchanged h h'"
  shows "mergeLoopH fuel h result target source ks = Some h' \<Longrightarrow> unchangedExcept result h h'"
proof (induction ks arbitrary: h)
  case Nil
  then show ?case by (simp add: unchangedExcept_refl)
next
  case (Cons key rest)
  from Cons.prems obtain v where v: "hget h source key = Some v"
    by (auto split: option.splits)
  from Cons.prems v obtain isrec where r: "hisRecord h v = Some isrec"
    by (auto split: option.splits)
  show ?case
  proof (cases isrec)
    case False
    from Cons.prems v r False obtain h1 where
      1: "hset h result key v = Some h1" and 2: "mergeLoopH fuel h1 result target source rest = Some h'"
      by (auto split: option.splits)
    show ?thesis
      using unchangedExcept_hset [OF 1] Cons.IH [OF 2] by (rule unchangedExcept_trans)
  next
    case True
    from Cons.prems v r True obtain tv where tv: "hget h target key = Some tv"
      by (auto split: option.splits)
    obtain base h1 where b:
      "(if htruthy tv then (tv, h)
        else (let (a, h') = halloc h (HObject []) in (HRef a, h'))) = (base, h1)"
      by (cases "if htruthy tv then (tv, h)
        else (let (a, h') = halloc h (HObject []) in (HRef a, h'))")
    have u1: "unchanged h h1"
      using b by (auto simp: unchanged_refl halloc_def unchanged_def nth_append split: if_splits)
    from Cons.prems v r True tv b obtain merged h2 h3 where
      1: "deepMergeH fuel h1 base v = Some (merged, h2)"
      and 2: "hset h2 result key merged = Some h3"
      and 3: "mergeLoopH fuel h3 result target source rest = Some h'"
      by (auto split: option.splits)
    have "unchangedExcept result h h1" using u1 by (rule unchanged_imp_except)
    moreover have "unchangedExcept result h1 h2" using IH [OF 1] by (rule unchanged_imp_except)
    moreover have "unchangedExcept result h2 h3" using 2 by (rule unchangedExcept_hset)
    moreover have "unchangedExcept result h3 h'" using 3 by (rule Cons.IH)
    ultimately show ?thesis by (blast intro: unchangedExcept_trans)
  qed
qed

lemma deepMergeH_unchanged:
  "deepMergeH fuel h target source = Some (v, h') \<Longrightarrow> unchanged h h'"
proof (induction fuel arbitrary: h target source v h')
  case 0
  then show ?case by simp
next
  case (Suc fuel)
  show ?case
  proof (cases "\<not> htruthy source \<or> \<not> htruthy target")
    case True
    then show ?thesis using Suc.prems by (auto simp: unchanged_refl split: if_splits)
  next
    case False
    from Suc.prems False obtain copied es h2 where
      1: "hentries h target = Some copied"
      and 2: "hentries (h @ [HObject copied]) source = Some es"
      and 3: "mergeLoopH fuel (h @ [HObject copied]) (length h) target source (map fst es) = Some h2"
      and 4: "h' = h2"
      by (auto simp: halloc_def split: option.splits)
    have "unchangedExcept (length h) (h @ [HObject copied]) h2"
      using Suc.IH 3 by (rule mergeLoopH_frame)
    then show ?thesis
      by (auto simp: 4 unchanged_def unchangedExcept_def nth_append)
  qed
qed

lemma deref_unchanged: "unchanged h h' \<Longrightarrow> deref h a = Some ob \<Longrightarrow> deref h' a = Some ob"
  by (auto simp: unchanged_def deref_def split: if_splits)

lemma those_map_mono:
  assumes "\<And>x y. x \<in> set xs \<Longrightarrow> f x = Some y \<Longrightarrow> g x = Some y"
  shows "those (map f xs) = Some ys \<Longrightarrow> those (map g xs) = Some ys"
  using assms
proof (induction xs arbitrary: ys)
  case Nil
  then show ?case by simp
next
  case (Cons x xs)
  from Cons.prems(1) obtain y ys' where y: "f x = Some y" "those (map f xs) = Some ys'" "ys = y # ys'"
    by (auto split: option.splits)
  have "g x = Some y" using Cons.prems(2) y(1) by simp
  moreover have "those (map g xs) = Some ys'"
    using y(2) Cons.prems(2) by (intro Cons.IH) auto
  ultimately show ?case by (simp add: y(3))
qed

lemma reify_unchanged:
  "unchanged h h' \<Longrightarrow> reify d h v = Some j \<Longrightarrow> reify d h' v = Some j"
proof (induction d arbitrary: v j)
  case 0
  then show ?case by (cases v) simp_all
next
  case (Suc d)
  show ?case
  proof (cases v)
    case (HRef a)
    from Suc.prems(2) HRef obtain ob where ob: "deref h a = Some ob"
      by (auto split: option.splits)
    have ob': "deref h' a = Some ob" using Suc.prems(1) ob by (rule deref_unchanged)
    show ?thesis
    proof (cases ob)
      case (HObject kvs)
      from Suc.prems(2) HRef ob HObject obtain ps where
        ps: "those (map (\<lambda>(k, v). map_option (Pair k) (reify d h v)) kvs) = Some ps" "j = Obj ps"
        by auto
      have "those (map (\<lambda>(k, v). map_option (Pair k) (reify d h' v)) kvs) = Some ps"
        using ps(1)
      proof (rule those_map_mono [rotated])
        fix x :: "string \<times> hval" and y :: "string \<times> jsval"
        assume a: "(case x of (k, v) \<Rightarrow> map_option (Pair k) (reify d h v)) = Some y"
        obtain k w where x: "x = (k, w)" by (cases x)
        from a obtain jw where "reify d h w = Some jw" "y = (k, jw)" by (auto simp: x)
        then show "(case x of (k, v) \<Rightarrow> map_option (Pair k) (reify d h' v)) = Some y"
          using Suc.IH [OF Suc.prems(1)] by (simp add: x)
      qed
      then show ?thesis by (simp add: HRef ob' HObject ps(2))
    next
      case (HArray xs)
      from Suc.prems(2) HRef ob HArray obtain js where
        js: "those (map (reify d h) xs) = Some js" "j = Arr js"
        by auto
      have "those (map (reify d h') xs) = Some js"
        using js(1)
      proof (rule those_map_mono [rotated])
        fix x :: hval and y :: jsval
        assume "reify d h x = Some y"
        then show "reify d h' x = Some y" using Suc.IH [OF Suc.prems(1)] by simp
      qed
      then show ?thesis by (simp add: HRef ob' HArray js(2))
    qed
  qed (use Suc.prems in simp_all)
qed

text \<open>
  Claim C10. When \<^verbatim>\<open>deepMerge(base, override)\<close> returns, every object that existed
  before the call is in the store unchanged, at its address: the call writes to
  objects it has allocated itself only. So the base and the override have, to every
  depth, the structure they had before the call.
\<close>

theorem deepMergeH_frame:
  assumes "deepMergeH fuel h target source = Some (v, h')"
  shows "take (length h) h' = h
    \<and> (\<forall>d j. reify d h target = Some j \<longrightarrow> reify d h' target = Some j)
    \<and> (\<forall>d j. reify d h source = Some j \<longrightarrow> reify d h' source = Some j)"
  using deepMergeH_unchanged [OF assms] reify_unchanged [of h h']
  by (simp add: unchanged_take)

theorem deepMergeH_frame_witness:
  "deepMergeH 3 exampleHeap (HRef 0) (HRef 3) = Some (HRef 7, exampleMerged)
   \<and> take (length exampleHeap) exampleMerged = exampleHeap
   \<and> reify 2 exampleHeap (HRef 0)
       = Some (Obj [(''a'', Obj [(''x'', Num 1), (''y'', Num 2)]),
                    (''l'', Arr [Num 1, Num 2, Num 3])])
   \<and> reify 2 exampleMerged (HRef 0)
       = Some (Obj [(''a'', Obj [(''x'', Num 1), (''y'', Num 2)]),
                    (''l'', Arr [Num 1, Num 2, Num 3])])
   \<and> reify 2 exampleHeap (HRef 3)
       = Some (Obj [(''a'', Obj [(''y'', Num 9)]), (''l'', Arr [Num 9]),
                    (''n'', Obj [(''z'', Null)])])
   \<and> reify 2 exampleMerged (HRef 3)
       = Some (Obj [(''a'', Obj [(''y'', Num 9)]), (''l'', Arr [Num 9]),
                    (''n'', Obj [(''z'', Null)])])"
proof -
  have run: "deepMergeH 3 exampleHeap (HRef 0) (HRef 3) = Some (HRef 7, exampleMerged)"
    by code_simp
  have base: "reify 2 exampleHeap (HRef 0)
       = Some (Obj [(''a'', Obj [(''x'', Num 1), (''y'', Num 2)]),
                    (''l'', Arr [Num 1, Num 2, Num 3])])"
    by code_simp
  have override: "reify 2 exampleHeap (HRef 3)
       = Some (Obj [(''a'', Obj [(''y'', Num 9)]), (''l'', Arr [Num 9]),
                    (''n'', Obj [(''z'', Null)])])"
    by code_simp
  show ?thesis
    using run base override deepMergeH_frame [OF run] by blast
qed

section \<open>The merge over the store computes the merge of documents\<close>

text \<open>
  The two models of \<^verbatim>\<open>deepMerge\<close> agree. When the arguments are documents of depth at
  most \<open>d\<close> in the store (finite, hence not cyclic) and the override is a well-formed
  record or falsy, the merge over the store returns within the recursion depth
  \<open>d + 1\<close>, and its result has the structure that the merge of documents computes
  from the structures of the arguments.
\<close>

lemma agreeOutside_refl: "agreeOutside A h h"
  by (simp add: agreeOutside_def)

lemma agreeOutside_trans: "agreeOutside A h h1 \<Longrightarrow> agreeOutside A h1 h2 \<Longrightarrow> agreeOutside A h h2"
  by (auto simp: agreeOutside_def)

lemma agreeOutside_mono: "A \<subseteq> B \<Longrightarrow> agreeOutside A h h' \<Longrightarrow> agreeOutside B h h'"
  by (auto simp: agreeOutside_def)

lemma agreeOutside_empty_iff: "agreeOutside {} h h' \<longleftrightarrow> unchanged h h'"
  by (simp add: agreeOutside_def unchanged_def)

lemma readsAs_reify: "readsAs A d h v j \<Longrightarrow> reify d h v = Some j"
  by (simp add: readsAs_def agreeOutside_refl)

lemma readsAs_step: "readsAs A d h v j \<Longrightarrow> agreeOutside A h h1 \<Longrightarrow> readsAs A d h1 v j"
  unfolding readsAs_def by (blast intro: agreeOutside_trans)

lemma readsAs_anti: "readsAs A d h v j \<Longrightarrow> B \<subseteq> A \<Longrightarrow> readsAs B d h v j"
  unfolding readsAs_def by (blast intro: agreeOutside_mono)

lemma readsAs_fresh:
  assumes "readsAs A d h v j" and "agreeOutside {} h h1" and "length h \<le> r"
  shows "readsAs (insert r A) d h1 v j"
  unfolding readsAs_def
proof (intro allI impI)
  fix h'
  assume a: "agreeOutside (insert r A) h1 h'"
  have "agreeOutside A h h'"
    using a assms(2,3) by (auto simp: agreeOutside_def)
  then show "reify d h' v = Some j" using assms(1) by (simp add: readsAs_def)
qed

lemma those_map_list_all2:
  "those (map f xs) = Some ys \<longleftrightarrow> list_all2 (\<lambda>x y. f x = Some y) xs ys"
proof (induction xs arbitrary: ys)
  case Nil
  then show ?case by auto
next
  case (Cons x xs)
  show ?case
    by (cases ys) (auto simp: Cons.IH split: option.splits)
qed

lemma reify_mono: "reify d h v = Some j \<Longrightarrow> reify (Suc d) h v = Some j"
proof (induction d arbitrary: v j)
  case 0
  then show ?case by (cases v) simp_all
next
  case (Suc d)
  show ?case
  proof (cases v)
    case (HRef a)
    from Suc.prems HRef obtain ob where ob: "deref h a = Some ob"
      by (auto split: option.splits)
    show ?thesis
    proof (cases ob)
      case (HObject kvs)
      from Suc.prems HRef ob HObject obtain ps where
        ps: "those (map (\<lambda>(k, v). map_option (Pair k) (reify d h v)) kvs) = Some ps" "j = Obj ps"
        by auto
      have "those (map (\<lambda>(k, v). map_option (Pair k) (reify (Suc d) h v)) kvs) = Some ps"
        using ps(1)
      proof (rule those_map_mono [rotated])
        fix x :: "string \<times> hval" and y :: "string \<times> jsval"
        assume a: "(case x of (k, v) \<Rightarrow> map_option (Pair k) (reify d h v)) = Some y"
        obtain k w where x: "x = (k, w)" by (cases x)
        from a obtain jw where "reify d h w = Some jw" "y = (k, jw)" by (auto simp: x)
        then show "(case x of (k, v) \<Rightarrow> map_option (Pair k) (reify (Suc d) h v)) = Some y"
          using Suc.IH by (simp add: x)
      qed
      then show ?thesis using HRef ob HObject ps(2) by simp
    next
      case (HArray xs)
      from Suc.prems HRef ob HArray obtain js where
        js: "those (map (reify d h) xs) = Some js" "j = Arr js"
        by auto
      have "those (map (reify (Suc d) h) xs) = Some js"
        using js(1)
      proof (rule those_map_mono [rotated])
        fix x :: hval and y :: jsval
        assume "reify d h x = Some y"
        then show "reify (Suc d) h x = Some y" by (rule Suc.IH)
      qed
      then show ?thesis using HRef ob HArray js(2) by simp
    qed
  qed (use Suc.prems in simp_all)
qed

lemma readsAs_mono: "readsAs A d h v j \<Longrightarrow> readsAs A (Suc d) h v j"
  by (simp add: readsAs_def reify_mono)

lemma reify_truthy: "reify d h v = Some j \<Longrightarrow> htruthy v = truthy j"
  by (cases v; cases d) (auto split: option.splits hobj.splits)

lemma reify_isRecord: "reify d h v = Some j \<Longrightarrow> hisRecord h v = Some (isRecord j)"
  by (cases v; cases d) (auto simp: isRecord_def split: option.splits hobj.splits)

lemma readsAs_ref_address:
  assumes "readsAs A d h (HRef a) j"
  shows "a < length h \<and> a \<notin> A \<and> (\<exists>d'. d = Suc d')"
proof -
  have r: "reify d h (HRef a) = Some j" using assms by (rule readsAs_reify)
  then obtain d' where d: "d = Suc d'" by (cases d) simp_all
  from r d have lt: "a < length h" by (auto simp: deref_def split: option.splits if_splits)
  have "a \<notin> A"
  proof
    assume "a \<in> A"
    then have 1: "agreeOutside A h (h[a := HArray []])" and 2: "agreeOutside A h (h[a := HObject []])"
      using lt by (auto simp: agreeOutside_def nth_list_update)
    have "reify d (h[a := HArray []]) (HRef a) = Some j"
      and "reify d (h[a := HObject []]) (HRef a) = Some j"
      using assms 1 2 by (simp_all add: readsAs_def)
    then show False using lt by (auto simp: d deref_def)
  qed
  then show ?thesis using lt d by blast
qed

lemma readsAs_primitive:
  "(\<And>a. v \<noteq> HRef a) \<Longrightarrow> reify d h v = Some j \<Longrightarrow> readsAs A d' h' v j"
  by (cases v) (auto simp: readsAs_def)

lemma readsAs_object:
  assumes "readsAs A (Suc d) h (HRef a) j" and "h ! a = HObject kvs"
  shows "\<exists>jps. j = Obj jps \<and> related A d h kvs jps"
proof -
  from readsAs_ref_address [OF assms(1)] have lt: "a < length h" and notin: "a \<notin> A" by simp_all
  have each: "\<exists>jps. j = Obj jps \<and>
      list_all2 (\<lambda>x y. (case x of (k, v) \<Rightarrow> map_option (Pair k) (reify d h' v)) = Some y) kvs jps"
    if "agreeOutside A h h'" for h'
  proof -
    have "h' ! a = HObject kvs" "a < length h'"
      using that lt notin assms(2) by (auto simp: agreeOutside_def)
    moreover have "reify (Suc d) h' (HRef a) = Some j"
      using assms(1) that by (simp add: readsAs_def)
    ultimately show ?thesis
      by (auto simp: deref_def those_map_list_all2)
  qed
  from each [OF agreeOutside_refl] obtain jps where jps: "j = Obj jps"
    and len: "length kvs = length jps"
    by (auto dest: list_all2_lengthD)
  have "related A d h kvs jps"
    unfolding related_def list_all2_conv_all_nth
  proof (intro conjI allI impI)
    show "length kvs = length jps" by (rule len)
  next
    fix i
    assume i: "i < length kvs"
    obtain k w where kw: "kvs ! i = (k, w)" by (cases "kvs ! i")
    obtain k' jw where kj: "jps ! i = (k', jw)" by (cases "jps ! i")
    have "k' = k \<and> reify d h' w = Some jw" if "agreeOutside A h h'" for h'
      using each [OF that] i kw kj jps by (auto simp: list_all2_conv_all_nth)
    then show "(case kvs ! i of (k, w) \<Rightarrow> \<lambda>(k', jw). k' = k \<and> readsAs A d h w jw) (jps ! i)"
      using agreeOutside_refl [of A h] by (auto simp: kw kj readsAs_def)
  qed
  then show ?thesis using jps by blast
qed

lemma readsAs_array:
  assumes "readsAs A (Suc d) h (HRef a) j" and "h ! a = HArray xs"
  shows "\<exists>js. j = Arr js \<and> list_all2 (readsAs A d h) xs js"
proof -
  from readsAs_ref_address [OF assms(1)] have lt: "a < length h" and notin: "a \<notin> A" by simp_all
  have each: "\<exists>js. j = Arr js \<and> list_all2 (\<lambda>x y. reify d h' x = Some y) xs js"
    if "agreeOutside A h h'" for h'
  proof -
    have "h' ! a = HArray xs" "a < length h'"
      using that lt notin assms(2) by (auto simp: agreeOutside_def)
    moreover have "reify (Suc d) h' (HRef a) = Some j"
      using assms(1) that by (simp add: readsAs_def)
    ultimately show ?thesis
      by (auto simp: deref_def those_map_list_all2)
  qed
  from each [OF agreeOutside_refl] obtain js where js: "j = Arr js"
    and len: "length xs = length js"
    by (auto dest: list_all2_lengthD)
  have "list_all2 (readsAs A d h) xs js"
    unfolding list_all2_conv_all_nth
  proof (intro conjI allI impI)
    show "length xs = length js" by (rule len)
  next
    fix i
    assume i: "i < length xs"
    have "reify d h' (xs ! i) = Some (js ! i)" if "agreeOutside A h h'" for h'
      using each [OF that] i js by (auto simp: list_all2_conv_all_nth)
    then show "readsAs A d h (xs ! i) (js ! i)" by (simp add: readsAs_def)
  qed
  then show ?thesis using js by blast
qed

lemma related_zip:
  "list_all2 (readsAs A d h) xs js \<Longrightarrow> length ks = length xs \<Longrightarrow>
   related A d h (zip ks xs) (zip ks js)"
  by (auto simp: related_def list_all2_conv_all_nth)

lemma related_chars:
  "related A d h (zip ks (map (\<lambda>c. HStr [c]) s)) (zip ks (map (\<lambda>c. Str [c]) s))"
  by (auto simp: related_def list_all2_conv_all_nth readsAs_def)

lemma readsAs_entries:
  assumes "readsAs A d h v j"
  shows "\<exists>es. hentries h v = Some es \<and> related A (d - 1) h es (entries j)"
proof (cases v)
  case (HRef a)
  from readsAs_ref_address [OF assms [unfolded HRef]] obtain d' where
    lt: "a < length h" and d: "d = Suc d'" by blast
  show ?thesis
  proof (cases "h ! a")
    case (HObject kvs)
    from readsAs_object [OF assms [unfolded HRef d] HObject]
    show ?thesis using lt HObject by (auto simp: HRef d deref_def)
  next
    case (HArray xs)
    from readsAs_array [OF assms [unfolded HRef d] HArray] obtain js where
      js: "j = Arr js" "list_all2 (readsAs A d' h) xs js" by blast
    have len: "length js = length xs" using js(2) by (auto dest: list_all2_lengthD)
    have "related A d' h (zip (map show_nat [0..<length xs]) xs)
            (zip (map show_nat [0..<length xs]) js)"
      using js(2) by (intro related_zip) simp_all
    then show ?thesis using lt HArray js(1) len by (simp add: HRef d deref_def)
  qed
next
  case (HStr s)
  have "j = Str s" using readsAs_reify [OF assms] HStr by simp
  then show ?thesis using related_chars by (simp add: HStr)
qed (use readsAs_reify [OF assms] in \<open>auto simp: related_def\<close>)

lemma related_map_of:
  "related A d h es jes \<Longrightarrow> rel_option (readsAs A d h) (map_of es key) (map_of jes key)"
  unfolding related_def
  by (induction es jes rule: list_all2_induct) auto

lemma related_lookup:
  assumes "related A d h es jes"
  shows "readsAs A d h (case map_of es key of Some w \<Rightarrow> w | None \<Rightarrow> HUndefined)
           (case map_of jes key of Some jw \<Rightarrow> jw | None \<Rightarrow> Undefined)"
proof (cases "map_of es key")
  case None
  then have "map_of jes key = None" using related_map_of [OF assms, of key] by simp
  then show ?thesis using None by (simp add: readsAs_def)
next
  case (Some w)
  then obtain jw where "map_of jes key = Some jw" "readsAs A d h w jw"
    using related_map_of [OF assms, of key] by (auto simp: option_rel_Some1)
  then show ?thesis using Some by simp
qed

lemma readsAs_get:
  assumes "readsAs A d h v j"
  shows "\<exists>w. hget h v key = Some w \<and> readsAs A (d - 1) h w (get j key)"
proof (cases v)
  case (HRef a)
  from readsAs_ref_address [OF assms [unfolded HRef]] obtain d' where
    lt: "a < length h" and d: "d = Suc d'" by blast
  show ?thesis
  proof (cases "h ! a")
    case (HObject kvs)
    from readsAs_object [OF assms [unfolded HRef d] HObject] obtain jps where
      jps: "j = Obj jps" "related A d' h kvs jps" by blast
    have "hget h v key = Some (case map_of kvs key of Some w \<Rightarrow> w | None \<Rightarrow> HUndefined)"
      using lt HObject by (simp add: HRef deref_def)
    moreover have "get j key = (case map_of jps key of Some jw \<Rightarrow> jw | None \<Rightarrow> Undefined)"
      by (simp add: jps(1))
    ultimately show ?thesis
      using related_lookup [OF jps(2), of key] by (simp add: d)
  next
    case (HArray xs)
    from readsAs_array [OF assms [unfolded HRef d] HArray] obtain js where
      js: "j = Arr js" "list_all2 (readsAs A d' h) xs js" by blast
    have len: "length js = length xs" using js(2) by (auto dest: list_all2_lengthD)
    have rel: "related A d' h (zip (map show_nat [0..<length xs]) xs)
            (zip (map show_nat [0..<length xs]) js)"
      using js(2) by (intro related_zip) simp_all
    show ?thesis
    proof (cases "key = ''length''")
      case True
      have "hget h v key = Some (HNum (int (length xs)))"
        using lt HArray True by (simp add: HRef deref_def)
      moreover have "get j key = Num (int (length xs))"
        using True len by (simp add: js(1))
      ultimately show ?thesis by (simp add: readsAs_def)
    next
      case False
      have "hget h v key = Some (case map_of (zip (map show_nat [0..<length xs]) xs) key of
                                   Some w \<Rightarrow> w | None \<Rightarrow> HUndefined)"
        using lt HArray False by (simp add: HRef deref_def)
      moreover have "get j key = (case map_of (zip (map show_nat [0..<length xs]) js) key of
                                    Some jw \<Rightarrow> jw | None \<Rightarrow> Undefined)"
        using False len by (simp add: js(1))
      ultimately show ?thesis
        using related_lookup [OF rel, of key] by (simp add: d)
    qed
  qed
next
  case (HStr s)
  have j: "j = Str s" using readsAs_reify [OF assms] HStr by simp
  show ?thesis
  proof (cases "key = ''length''")
    case True
    then show ?thesis by (simp add: HStr j readsAs_def)
  next
    case False
    have "hget h v key = Some (case map_of (zip (map show_nat [0..<length s])
                                 (map (\<lambda>c. HStr [c]) s)) key of
                                 Some w \<Rightarrow> w | None \<Rightarrow> HUndefined)"
      using False by (simp add: HStr)
    moreover have "get j key = (case map_of (zip (map show_nat [0..<length s])
                                  (map (\<lambda>c. Str [c]) s)) key of
                                  Some jw \<Rightarrow> jw | None \<Rightarrow> Undefined)"
      using False by (simp add: j)
    ultimately show ?thesis
      using related_lookup [OF related_chars [of A "d - 1" h "map show_nat [0..<length s]" s], of key]
      by simp
  qed
next
  case HUndefined
  then show ?thesis using readsAs_reify [OF assms] by (auto simp: readsAs_def)
next
  case HNull
  then show ?thesis using readsAs_reify [OF assms] by (auto simp: readsAs_def)
next
  case (HBool b)
  then show ?thesis using readsAs_reify [OF assms] by (auto simp: readsAs_def)
next
  case (HNum n)
  then show ?thesis using readsAs_reify [OF assms] by (auto simp: readsAs_def)
qed

lemma related_step: "related A d h es jes \<Longrightarrow> agreeOutside A h h1 \<Longrightarrow> related A d h1 es jes"
  unfolding related_def
  by (erule list_all2_mono) (auto intro: readsAs_step)

lemma related_mono: "related A d h es jes \<Longrightarrow> related A (Suc d) h es jes"
  unfolding related_def
  by (erule list_all2_mono) (auto intro: readsAs_mono)

lemma related_anti: "related A d h es jes \<Longrightarrow> B \<subseteq> A \<Longrightarrow> related B d h es jes"
  unfolding related_def
  by (erule list_all2_mono) (auto intro: readsAs_anti)

lemma related_fresh:
  "related A d h es jes \<Longrightarrow> agreeOutside {} h h1 \<Longrightarrow> length h \<le> r \<Longrightarrow>
   related (insert r A) d h1 es jes"
  unfolding related_def
  by (erule list_all2_mono) (auto intro: readsAs_fresh)

lemma related_keys: "related A d h es jes \<Longrightarrow> map fst es = map fst jes"
  unfolding related_def
  by (induction es jes rule: list_all2_induct) auto

lemma related_update:
  "related A d h es jes \<Longrightarrow> readsAs A d h w jw \<Longrightarrow>
   related A d h (AList.update k w es) (AList.update k jw jes)"
  unfolding related_def
  by (induction es jes rule: list_all2_induct) auto

lemma related_reify:
  assumes "related A d h es jes" and "agreeOutside A h h'"
  shows "those (map (\<lambda>(k, v). map_option (Pair k) (reify d h' v)) es) = Some jes"
  unfolding those_map_list_all2
  using assms(1) unfolding related_def
  by (rule list_all2_mono) (use assms(2) in \<open>auto simp: readsAs_def\<close>)

lemma mergeLoopH_plain:
  "hget h source key = Some v \<Longrightarrow> hisRecord h v = Some False \<Longrightarrow>
   hset h result key v = Some h1 \<Longrightarrow>
   mergeLoopH fuel h result target source (key # rest) =
     mergeLoopH fuel h1 result target source rest"
  by simp

lemma mergeLoopH_record:
  "hget h source key = Some v \<Longrightarrow> hisRecord h v = Some True \<Longrightarrow>
   hget h target key = Some tv \<Longrightarrow>
   (if htruthy tv then (tv, h) else (HRef (length h), h @ [HObject []])) = (base, h1) \<Longrightarrow>
   deepMergeH fuel h1 base v = Some (merged, h2) \<Longrightarrow>
   hset h2 result key merged = Some h3 \<Longrightarrow>
   mergeLoopH fuel h result target source (key # rest) =
     mergeLoopH fuel h3 result target source rest"
  by (auto simp: halloc_def split: if_splits)

lemma hset_object:
  "r < length h \<Longrightarrow> h ! r = HObject props \<Longrightarrow>
   hset h r key v = Some (h[r := HObject (AList.update key v props)])"
  by (simp add: hset_def deref_def)

lemma agreeOutside_update: "r \<in> A \<Longrightarrow> agreeOutside A h (h[r := ob])"
proof -
  assume r: "r \<in> A"
  have "h[r := ob] ! a = h ! a" if "a \<notin> A" for a
    using that r by (intro nth_list_update_neq) auto
  then show ?thesis by (simp add: agreeOutside_def)
qed

lemma unchanged_agreeOutside: "unchanged h h' \<Longrightarrow> agreeOutside A h h'"
  by (simp add: unchanged_def agreeOutside_def)

lemma unchangedExcept_agreeOutside: "unchangedExcept r h h' \<Longrightarrow> r \<in> A \<Longrightarrow> agreeOutside A h h'"
  by (auto simp: unchangedExcept_def agreeOutside_def)

lemma readsAs_empty_object:
  assumes "\<forall>a\<in>A. a < length h"
  shows "readsAs A (Suc d) (h @ [HObject []]) (HRef (length h)) (Obj [])"
  unfolding readsAs_def
proof (intro allI impI)
  fix h'
  assume a: "agreeOutside A (h @ [HObject []]) h'"
  have "length h \<notin> A" using assms by auto
  then have "h' ! length h = HObject []" "length h < length h'"
    using a by (auto simp: agreeOutside_def)
  then show "reify (Suc d) h' (HRef (length h)) = Some (Obj [])"
    by (simp add: deref_def)
qed

lemma mergeLoopH_refines:
  assumes IH: "\<And>A h t s jt js.
      \<lbrakk>\<forall>a\<in>A. a < length h; readsAs A d h t jt; readsAs A d h s js; wellFormed js; isRecord js\<rbrakk>
      \<Longrightarrow> \<exists>v h'. deepMergeH (Suc d) h t s = Some (v, h')
                 \<and> readsAs A (Suc d) h' v (deepMerge jt js)"
    and r: "r \<in> A"
    and src: "distinct (map fst sps)"
  shows "\<lbrakk>\<forall>a\<in>A. a < length hc; readsAs A (Suc d) hc t jt; readsAs A (Suc d) hc s (Obj sps);
          hc ! r = HObject props; related A (Suc d) hc props jres;
          set rest \<subseteq> set sps; \<forall>(k, jv) \<in> set rest. wellFormed jv\<rbrakk>
         \<Longrightarrow> \<exists>h' props'. mergeLoopH (Suc d) hc r t s (map fst rest) = Some h'
               \<and> unchangedExcept r hc h'
               \<and> h' ! r = HObject props'
               \<and> related A (Suc d) h' props' (mergeLoop jt rest jres)"
proof (induction rest arbitrary: hc props jres)
  case Nil
  then show ?case by (auto simp: unchangedExcept_refl)
next
  case (Cons e rest)
  obtain k jv where e: "e = (k, jv)" by (cases e)
  note bound = Cons.prems(1) and rt = Cons.prems(2) and rs = Cons.prems(3)
    and obj = Cons.prems(4) and rel = Cons.prems(5)
  have rlt: "r < length hc" using r bound by blast
  have look: "map_of sps k = Some jv" using Cons.prems(6) src by (simp add: e)
  have wfv: "wellFormed jv" using Cons.prems(7) by (simp add: e)
  have rest_sub: "set rest \<subseteq> set sps" and rest_wf: "\<forall>(k, jv) \<in> set rest. wellFormed jv"
    using Cons.prems(6,7) by auto
  obtain w where w: "hget hc s k = Some w" and "readsAs A (Suc d - 1) hc w (get (Obj sps) k)"
    using readsAs_get [OF rs, of k] by blast
  then have rw: "readsAs A d hc w jv" using look by simp
  have isr: "hisRecord hc w = Some (isRecord jv)"
    using reify_isRecord [OF readsAs_reify [OF rw]] .
  show ?case
  proof (cases "isRecord jv")
    case False
    let ?h1 = "hc[r := HObject (AList.update k w props)]"
    have set1: "hset hc r k w = Some ?h1" using rlt obj by (rule hset_object)
    have step: "mergeLoopH (Suc d) hc r t s (k # map fst rest)
                  = mergeLoopH (Suc d) ?h1 r t s (map fst rest)"
      using w isr False set1 by (intro mergeLoopH_plain) simp_all
    have ag: "agreeOutside A hc ?h1" using r by (rule agreeOutside_update)
    have val: "mergedValue jt k jv = jv" using False by (rule mergedValue_other)
    have rel1: "related A (Suc d) ?h1 (AList.update k w props) (AList.update k jv jres)"
      by (intro related_step [OF _ ag] related_update rel readsAs_mono rw)
    have "\<exists>h' props'. mergeLoopH (Suc d) ?h1 r t s (map fst rest) = Some h'
               \<and> unchangedExcept r ?h1 h'
               \<and> h' ! r = HObject props'
               \<and> related A (Suc d) h' props' (mergeLoop jt rest (AList.update k jv jres))"
    proof (rule Cons.IH)
      show "\<forall>a\<in>A. a < length ?h1" using bound by simp
      show "readsAs A (Suc d) ?h1 t jt" using rt ag by (rule readsAs_step)
      show "readsAs A (Suc d) ?h1 s (Obj sps)" using rs ag by (rule readsAs_step)
      show "?h1 ! r = HObject (AList.update k w props)" using rlt by simp
      show "related A (Suc d) ?h1 (AList.update k w props) (AList.update k jv jres)" by (rule rel1)
      show "set rest \<subseteq> set sps" by (rule rest_sub)
      show "\<forall>(k, jv) \<in> set rest. wellFormed jv" by (rule rest_wf)
    qed
    then obtain h' props' where fin:
      "mergeLoopH (Suc d) ?h1 r t s (map fst rest) = Some h'"
      "unchangedExcept r ?h1 h'" "h' ! r = HObject props'"
      "related A (Suc d) h' props' (mergeLoop jt rest (AList.update k jv jres))"
      by blast
    have "unchangedExcept r hc ?h1" using set1 by (rule unchangedExcept_hset)
    then have "unchangedExcept r hc h'" using fin(2) by (rule unchangedExcept_trans)
    then show ?thesis
      using fin step val by (auto simp: e mergeLoop_step simp del: mergeLoop.simps mergedValue.simps)
  next
    case True
    obtain tv where tv: "hget hc t k = Some tv" and "readsAs A (Suc d - 1) hc tv (get jt k)"
      using readsAs_get [OF rt, of k] by blast
    then have rtv: "readsAs A d hc tv (get jt k)" by simp
    have truth: "htruthy tv = truthy (get jt k)"
      using reify_truthy [OF readsAs_reify [OF rtv]] .
    obtain wa where wref: "w = HRef wa"
      using True readsAs_reify [OF rw] by (cases w) (auto simp: isRecord_def)
    obtain d' where d: "d = Suc d'"
      using readsAs_ref_address [OF rw [unfolded wref]] by blast
    obtain base h1 where b:
      "(if htruthy tv then (tv, hc) else (HRef (length hc), hc @ [HObject []])) = (base, h1)"
      by (cases "if htruthy tv then (tv, hc) else (HRef (length hc), hc @ [HObject []])")
    have u1: "unchanged hc h1"
      using b by (auto simp: unchanged_def nth_append split: if_splits)
    have ag1: "agreeOutside A hc h1" using u1 by (rule unchanged_agreeOutside)
    have bound1: "\<forall>a\<in>A. a < length h1" using bound u1 by (auto simp: unchanged_def)
    have rbase: "readsAs A d h1 base (or_else (get jt k) (Obj []))"
    proof (cases "htruthy tv")
      case True
      then have "base = tv" "h1 = hc" using b by simp_all
      then show ?thesis using rtv truth True by simp
    next
      case False
      then have "base = HRef (length hc)" "h1 = hc @ [HObject []]" using b by simp_all
      then show ?thesis
        using readsAs_empty_object [OF bound, of d'] truth False by (simp add: d)
    qed
    have rw1: "readsAs A d h1 w jv" using rw ag1 by (rule readsAs_step)
    obtain merged h2 where m: "deepMergeH (Suc d) h1 base w = Some (merged, h2)"
      and rm: "readsAs A (Suc d) h2 merged (deepMerge (or_else (get jt k) (Obj [])) jv)"
      using IH [OF bound1 rbase rw1 wfv True] by blast
    have u2: "unchanged h1 h2" using m by (rule deepMergeH_unchanged)
    have ag2: "agreeOutside A h1 h2" using u2 by (rule unchanged_agreeOutside)
    have rlt2: "r < length h2" using rlt u1 u2 by (auto simp: unchanged_def)
    have obj2: "h2 ! r = HObject props" using obj rlt u1 u2 by (auto simp: unchanged_def)
    let ?h3 = "h2[r := HObject (AList.update k merged props)]"
    have set3: "hset h2 r k merged = Some ?h3" using rlt2 obj2 by (rule hset_object)
    have step: "mergeLoopH (Suc d) hc r t s (k # map fst rest)
                  = mergeLoopH (Suc d) ?h3 r t s (map fst rest)"
      using w isr True tv b m set3 by (intro mergeLoopH_record) simp_all
    have ag3: "agreeOutside A h2 ?h3" using r by (rule agreeOutside_update)
    have ag: "agreeOutside A hc ?h3"
      using ag1 ag2 ag3 by (blast intro: agreeOutside_trans)
    have val: "mergedValue jt k jv = deepMerge (or_else (get jt k) (Obj [])) jv"
      using True by (rule mergedValue_record)
    have rel3: "related A (Suc d) ?h3 (AList.update k merged props)
                  (AList.update k (deepMerge (or_else (get jt k) (Obj [])) jv) jres)"
    proof (rule related_update)
      show "related A (Suc d) ?h3 props jres" using rel ag by (rule related_step)
      show "readsAs A (Suc d) ?h3 merged (deepMerge (or_else (get jt k) (Obj [])) jv)"
        using rm ag3 by (rule readsAs_step)
    qed
    have "\<exists>h' props'. mergeLoopH (Suc d) ?h3 r t s (map fst rest) = Some h'
               \<and> unchangedExcept r ?h3 h'
               \<and> h' ! r = HObject props'
               \<and> related A (Suc d) h' props'
                    (mergeLoop jt rest
                       (AList.update k (deepMerge (or_else (get jt k) (Obj [])) jv) jres))"
    proof (rule Cons.IH)
      show "\<forall>a\<in>A. a < length ?h3" using bound1 u2 by (auto simp: unchanged_def)
      show "readsAs A (Suc d) ?h3 t jt" using rt ag by (rule readsAs_step)
      show "readsAs A (Suc d) ?h3 s (Obj sps)" using rs ag by (rule readsAs_step)
      show "?h3 ! r = HObject (AList.update k merged props)" using rlt2 by simp
      show "related A (Suc d) ?h3 (AList.update k merged props)
              (AList.update k (deepMerge (or_else (get jt k) (Obj [])) jv) jres)" by (rule rel3)
      show "set rest \<subseteq> set sps" by (rule rest_sub)
      show "\<forall>(k, jv) \<in> set rest. wellFormed jv" by (rule rest_wf)
    qed
    then obtain h' props' where fin:
      "mergeLoopH (Suc d) ?h3 r t s (map fst rest) = Some h'"
      "unchangedExcept r ?h3 h'" "h' ! r = HObject props'"
      "related A (Suc d) h' props'
         (mergeLoop jt rest (AList.update k (deepMerge (or_else (get jt k) (Obj [])) jv) jres))"
      by blast
    have "unchangedExcept r hc h1" using u1 by (rule unchanged_imp_except)
    moreover have "unchangedExcept r h1 h2" using u2 by (rule unchanged_imp_except)
    moreover have "unchangedExcept r h2 ?h3" using set3 by (rule unchangedExcept_hset)
    ultimately have "unchangedExcept r hc h'"
      using fin(2) by (blast intro: unchangedExcept_trans)
    then show ?thesis
      using fin step val by (auto simp: e mergeLoop_step simp del: mergeLoop.simps mergedValue.simps)
  qed
qed

lemma deepMergeH_refines_readsAs:
  "\<lbrakk>\<forall>a\<in>A. a < length h; readsAs A d h t jt; readsAs A d h s js; wellFormed js;
    isRecord js \<or> \<not> truthy js\<rbrakk>
   \<Longrightarrow> \<exists>v h'. deepMergeH (Suc d) h t s = Some (v, h')
              \<and> readsAs A (Suc d) h' v (deepMerge jt js)"
proof (induction d arbitrary: A h t s jt js)
  case 0
  have ts: "htruthy s = truthy js" using reify_truthy [OF readsAs_reify [OF "0.prems"(3)]] .
  have tt: "htruthy t = truthy jt" using reify_truthy [OF readsAs_reify [OF "0.prems"(2)]] .
  show ?case
  proof (cases "truthy js")
    case False
    then show ?thesis
      using ts readsAs_mono [OF "0.prems"(2)] by (auto simp: deepMerge.simps)
  next
    case True
    then have "isRecord js" using "0.prems"(5) by simp
    then obtain a where "s = HRef a"
      using readsAs_reify [OF "0.prems"(3)] by (cases s) (auto simp: isRecord_def)
    then show ?thesis using readsAs_ref_address [of A 0 h a js] "0.prems"(3) by simp
  qed
next
  case (Suc d)
  note bound = Suc.prems(1) and rt = Suc.prems(2) and rs = Suc.prems(3) and wf = Suc.prems(4)
  have ts: "htruthy s = truthy js" using reify_truthy [OF readsAs_reify [OF rs]] .
  have tt: "htruthy t = truthy jt" using reify_truthy [OF readsAs_reify [OF rt]] .
  show ?case
  proof (cases "truthy js")
    case False
    then show ?thesis
      using ts readsAs_mono [OF rt] by (auto simp: deepMerge.simps)
  next
    case True
    note source_truthy = True
    then have "isRecord js" using Suc.prems(5) by simp
    then obtain sps where js: "js = Obj sps" by (auto simp: isRecord_iff)
    have dist: "distinct (map fst sps)" and wfs: "\<forall>(k, jv) \<in> set sps. wellFormed jv"
      using wf by (auto simp: js)
    show ?thesis
    proof (cases "truthy jt")
      case False
      then show ?thesis
        using ts tt source_truthy readsAs_mono [OF rs] by (auto simp: deepMerge.simps)
    next
      case True
      let ?r = "length h"
      let ?A = "insert ?r A"
      obtain copied where copied: "hentries h t = Some copied"
        and relc: "related A (Suc d - 1) h copied (entries jt)"
        using readsAs_entries [OF rt] by blast
      let ?h1 = "h @ [HObject copied]"
      have ext: "agreeOutside {} h ?h1" by (simp add: agreeOutside_def nth_append)
      have rt1: "readsAs ?A (Suc d) ?h1 t jt" using rt ext by (rule readsAs_fresh) simp
      have rs1: "readsAs ?A (Suc d) ?h1 s (Obj sps)"
        using rs [unfolded js] ext by (rule readsAs_fresh) simp
      obtain es where es: "hentries ?h1 s = Some es"
        and rele: "related ?A (Suc d - 1) ?h1 es (entries (Obj sps))"
        using readsAs_entries [OF rs1] by blast
      have keys: "map fst es = map fst sps" using related_keys [OF rele] by simp
      have relc1: "related ?A (Suc d) ?h1 copied (entries jt)"
        using relc ext by (intro related_mono related_fresh [where h = h]) simp_all
      have "\<exists>h' props'. mergeLoopH (Suc d) ?h1 ?r t s (map fst sps) = Some h'
               \<and> unchangedExcept ?r ?h1 h'
               \<and> h' ! ?r = HObject props'
               \<and> related ?A (Suc d) h' props' (mergeLoop jt sps (entries jt))"
      proof (rule mergeLoopH_refines [where A = ?A and sps = sps and props = copied])
        fix A' h' t' s' jt' js'
        assume "\<forall>a\<in>A'. a < length h'" "readsAs A' d h' t' jt'" "readsAs A' d h' s' js'"
          "wellFormed js'" "isRecord js'"
        then show "\<exists>v h''. deepMergeH (Suc d) h' t' s' = Some (v, h'')
                 \<and> readsAs A' (Suc d) h'' v (deepMerge jt' js')"
          by (intro Suc.IH) simp_all
      next
        show "?r \<in> ?A" by simp
        show "distinct (map fst sps)" by (rule dist)
        show "\<forall>a\<in>?A. a < length ?h1" using bound by auto
        show "readsAs ?A (Suc d) ?h1 t jt" by (rule rt1)
        show "readsAs ?A (Suc d) ?h1 s (Obj sps)" by (rule rs1)
        show "?h1 ! ?r = HObject copied" by simp
        show "related ?A (Suc d) ?h1 copied (entries jt)" by (rule relc1)
        show "set sps \<subseteq> set sps" by simp
        show "\<forall>(k, jv) \<in> set sps. wellFormed jv" by (rule wfs)
      qed
      then obtain h' props' where fin:
        "mergeLoopH (Suc d) ?h1 ?r t s (map fst sps) = Some h'"
        "unchangedExcept ?r ?h1 h'" "h' ! ?r = HObject props'"
        "related ?A (Suc d) h' props' (mergeLoop jt sps (entries jt))"
        by blast
      have run: "deepMergeH (Suc (Suc d)) h t s = Some (HRef ?r, h')"
        using ts tt True source_truthy copied es keys fin(1) by (simp add: halloc_def)
      have pure: "deepMerge jt js = Obj (mergeLoop jt sps (entries jt))"
        using True by (simp add: js deepMerge.simps)
      have len: "?r < length h'" using fin(2) by (simp add: unchangedExcept_def)
      have notin: "?r \<notin> A" using bound by auto
      have "readsAs A (Suc (Suc d)) h' (HRef ?r) (Obj (mergeLoop jt sps (entries jt)))"
        unfolding readsAs_def
      proof (intro allI impI)
        fix h''
        assume a: "agreeOutside A h' h''"
        have at: "h'' ! ?r = HObject props'" "?r < length h''"
          using a len notin fin(3) by (auto simp: agreeOutside_def)
        have "agreeOutside ?A h' h''" using a by (rule agreeOutside_mono [rotated]) auto
        then have "those (map (\<lambda>(k, v). map_option (Pair k) (reify (Suc d) h'' v)) props')
                     = Some (mergeLoop jt sps (entries jt))"
          using fin(4) by (intro related_reify)
        then show "reify (Suc (Suc d)) h'' (HRef ?r) = Some (Obj (mergeLoop jt sps (entries jt)))"
          using at by (simp add: deref_def)
      qed
      then show ?thesis using run pure by simp
    qed
  qed
qed

lemma reify_readsAs: "reify d h v = Some j \<Longrightarrow> readsAs {} d h v j"
  by (auto simp: readsAs_def agreeOutside_empty_iff intro: reify_unchanged)

lemma deepMergeH_refines:
  assumes "reify d h target = Some jt" and "reify d h source = Some js"
    and "wellFormed js" and "isRecord js \<or> \<not> truthy js"
  shows "\<exists>v h'. deepMergeH (Suc d) h target source = Some (v, h')
            \<and> reify (Suc d) h' v = Some (deepMerge jt js)"
proof -
  obtain v h' where "deepMergeH (Suc d) h target source = Some (v, h')"
    and "readsAs {} (Suc d) h' v (deepMerge jt js)"
    using deepMergeH_refines_readsAs [of "{}" h d target jt source js] assms
    by (auto simp: reify_readsAs)
  then show ?thesis using readsAs_reify by blast
qed

text \<open>
  On the example store the merge over the store and the merge of documents agree: the
  result reads back as the merge of what the arguments read back as.
\<close>

lemma deepMergeH_example_agrees:
  "deepMergeH 3 exampleHeap (HRef 0) (HRef 3) = Some (HRef 7, exampleMerged)
   \<and> reify 3 exampleMerged (HRef 7)
       = Some (deepMerge
                 (Obj [(''a'', Obj [(''x'', Num 1), (''y'', Num 2)]),
                       (''l'', Arr [Num 1, Num 2, Num 3])])
                 (Obj [(''a'', Obj [(''y'', Num 9)]), (''l'', Arr [Num 9]),
                       (''n'', Obj [(''z'', Null)])]))"
  by code_simp

end
